theory Spec2Isabelle
  imports Main "HOL-Library.Word"
begin

unbundle bit_operations_syntax

section \<open>Instruction words\<close>

text \<open>
  A guest address of width \<open>W\<close> bytes (the template parameter of the emulator, 4, 8 or 16)
  is a natural number below \<open>2 ^ (8 * W)\<close>; address arithmetic wraps at that bound and the
  wrap is written out. Instruction bits and the fields of a decoder entry are machine words.
\<close>

type_synonym address = nat
type_synonym instruction = "32 word"

definition addr_wrap :: "nat \<Rightarrow> nat \<Rightarrow> address" where
  "addr_wrap W x = x mod 2 ^ (8 * W)"

text \<open>\<open>a + int32_t\<close> on \<open>address_type<W>\<close>: the signed operand is converted to the unsigned
  address type (sign extension), the sum wraps.\<close>

definition addr_add_signed :: "nat \<Rightarrow> address \<Rightarrow> int \<Rightarrow> address" where
  "addr_add_signed W a i = nat ((int a + i) mod 2 ^ (8 * W))"

text \<open>
  Modelled from the spec: \<open>rv32i_instr.hpp\<close>, \<open>rvc.hpp\<close> and \<open>instruction_list.hpp\<close> are
  not among the sources. The spec names the RV32I base encoding (and its C extension); the
  bit fields and opcode numbers below are those of that encoding: the opcode is the low seven
  bits, an instruction whose two low bits are both set is four bytes long, any other is a
  two-byte compressed instruction.
\<close>

definition opcode :: "instruction \<Rightarrow> 32 word" where
  "opcode w = w AND 0x7F"

definition is_long :: "instruction \<Rightarrow> bool" where
  "is_long w = (w AND 3 = 3)"


definition length_instr :: "instruction \<Rightarrow> nat" where
  "length_instr w = (if is_long w then 4 else 2)"

definition RV32I_LOAD :: "32 word" where "RV32I_LOAD = 0x03"
definition RV32I_OP_IMM :: "32 word" where "RV32I_OP_IMM = 0x13"
definition RV32I_AUIPC :: "32 word" where "RV32I_AUIPC = 0x17"
definition RV32I_BRANCH :: "32 word" where "RV32I_BRANCH = 0x63"
definition RV32I_JALR :: "32 word" where "RV32I_JALR = 0x67"
definition RV32I_JAL :: "32 word" where "RV32I_JAL = 0x6F"
definition RV32I_SYSTEM :: "32 word" where "RV32I_SYSTEM = 0x73"

definition field_rd :: "instruction \<Rightarrow> 32 word" where
  "field_rd w = drop_bit 7 w AND 0x1F"

definition field_funct3 :: "instruction \<Rightarrow> 32 word" where
  "field_funct3 w = drop_bit 12 w AND 0x7"

definition field_rs1 :: "instruction \<Rightarrow> 32 word" where
  "field_rs1 w = drop_bit 15 w AND 0x1F"

definition field_rs2 :: "instruction \<Rightarrow> 32 word" where
  "field_rs2 w = drop_bit 20 w AND 0x1F"


text \<open>\<open>Itype.signed_imm()\<close>: the 12-bit immediate, sign extended.\<close>

definition Itype_signed_imm :: "instruction \<Rightarrow> int" where
  "Itype_signed_imm w = sint (signed_drop_bit 20 w)"

text \<open>\<open>Utype.upper_imm()\<close>: the 20-bit immediate shifted left by 12, as an \<open>int32_t\<close>.\<close>

definition Utype_upper_imm :: "instruction \<Rightarrow> int" where
  "Utype_upper_imm w = sint (w AND 0xFFFFF000)"

text \<open>\<open>Btype.signed_imm()\<close>: imm[12|10:5] in bits 31..25, imm[4:1|11] in bits 11..7.\<close>

definition Btype_signed_imm :: "instruction \<Rightarrow> int" where
  "Btype_signed_imm w =
     sint (push_bit 1 (drop_bit 8 w AND 0xF)
        OR push_bit 5 (drop_bit 25 w AND 0x3F)
        OR push_bit 11 (drop_bit 7 w AND 0x1)
        OR (if bit w 31 then 0xFFFFF000 else 0))"

text \<open>\<open>Jtype.jump_offset()\<close>: imm[20|10:1|11|19:12] in bits 31..12.\<close>

definition Jtype_jump_offset :: "instruction \<Rightarrow> int" where
  "Jtype_jump_offset w =
     sint (push_bit 1 (drop_bit 21 w AND 0x3FF)
        OR push_bit 11 (drop_bit 20 w AND 0x1)
        OR push_bit 12 (drop_bit 12 w AND 0xFF)
        OR (if bit w 31 then 0xFFF00000 else 0))"

text \<open>The compressed view: \<open>rv32c_instruction::opcode()\<close> keeps funct3 (bits 15..13) and the
  quadrant (bits 1..0); \<open>CR.rd\<close> is bits 11..7 and \<open>CR.rs2\<close> bits 6..2.\<close>

definition ci_opcode :: "16 word \<Rightarrow> 16 word" where
  "ci_opcode h = h AND 0xE003"

definition CI_CODE :: "16 word \<Rightarrow> 16 word \<Rightarrow> 16 word" where
  "CI_CODE x y = push_bit 13 x OR y"

definition CR_rd :: "16 word \<Rightarrow> 16 word" where
  "CR_rd h = drop_bit 7 h AND 0x1F"

definition CR_rs2 :: "16 word \<Rightarrow> 16 word" where
  "CR_rs2 h = drop_bit 2 h AND 0x1F"

section \<open>The instruction reader\<close>

text \<open>
  \<open>exec_segment\<close> is a byte pointer indexed by the guest PC. The host is little-endian (the
  spec reads instruction words little-endian), so a \<open>uint16_t\<close> at byte offset \<open>a\<close> is
  the byte at \<open>a\<close> with the byte at \<open>a + 1\<close> above it.
\<close>

type_synonym exec_bytes = "nat \<Rightarrow> 8 word"

definition load_u16 :: "exec_bytes \<Rightarrow> nat \<Rightarrow> 16 word" where
  "load_u16 buf a = ucast (buf a) OR push_bit 8 (ucast (buf (a + 1)))"

text \<open>\<open>UnalignedLoad32::operator uint32_t\<close>: \<open>data[0] | uint32_t(data[1]) << 16\<close>.\<close>

definition UnalignedLoad32 :: "exec_bytes \<Rightarrow> nat \<Rightarrow> 32 word" where
  "UnalignedLoad32 buf a = ucast (load_u16 buf a) OR push_bit 16 (ucast (load_u16 buf (a + 2)))"

definition AlignedLoad16 :: "exec_bytes \<Rightarrow> nat \<Rightarrow> 32 word" where
  "AlignedLoad16 buf a = ucast (load_u16 buf a)"

text \<open>\<open>read_instruction\<close> takes \<open>pc\<close> and \<open>end_pc\<close> as \<open>uint64_t\<close>; \<open>pc + 4\<close> is the
  64-bit sum.\<close>

definition read_instruction :: "exec_bytes \<Rightarrow> 64 word \<Rightarrow> 64 word \<Rightarrow> instruction" where
  "read_instruction exec_segment pc end_pc =
     (if pc + 4 \<le> end_pc then UnalignedLoad32 exec_segment (unat pc)
      else AlignedLoad16 exec_segment (unat pc))"

text \<open>The value the spec describes: the bytes of the buffer, least significant first.\<close>

definition le_bytes :: "exec_bytes \<Rightarrow> nat \<Rightarrow> nat \<Rightarrow> nat" where
  "le_bytes buf a n = (\<Sum>i<n. unat (buf (a + i)) * 256 ^ i)"

section \<open>Decoder entries\<close>

text \<open>
  \<open>DecoderData\<close>. With the C extension \<open>idxend\<close> and \<open>icount\<close> are 8-bit bit-fields of one
  \<open>uint16_t\<close>, without it \<open>idxend\<close> is a full \<open>uint16_t\<close>: the field is kept 16 bits wide and
  a store in a build with the C extension keeps the low 8 bits. \<open>opcode_length\<close> and
  \<open>instr_count\<close> are written by \<open>realize_fastsim\<close>; \<open>instr_count\<close> receives the \<open>uint8_t\<close>
  of \<open>overflow_checked_instr_count\<close>.
\<close>

record DecoderData =
  m_bytecode :: "8 word"
  m_handler :: "8 word"
  idxend :: "16 word"
  icount :: "8 word"
  opcode_length :: "8 word"
  instr_count :: "8 word"
  instr :: "32 word"

text \<open>\<open>DecoderCache<W>::DIVISOR\<close>.\<close>

definition DIVISOR :: "bool \<Rightarrow> nat" where
  "DIVISOR compressed_enabled = (if compressed_enabled then 2 else 4)"

text \<open>The accessors compute in \<open>int\<close> (the integer promotion of the bit-fields).\<close>

definition block_bytes :: "bool \<Rightarrow> DecoderData \<Rightarrow> int" where
  "block_bytes compressed_enabled d = uint (idxend d) * (if compressed_enabled then 2 else 4)"

definition instruction_count :: "bool \<Rightarrow> DecoderData \<Rightarrow> int" where
  "instruction_count compressed_enabled d =
     (if compressed_enabled then uint (idxend d) + 1 - uint (icount d)
      else uint (idxend d) + 1)"

definition FASTSIM_BLOCK_END :: "32 word" where
  "FASTSIM_BLOCK_END = 0xFFFF"

section \<open>Errors\<close>

text \<open>\<open>MachineException\<close>: a kind, a message and a data word.\<close>

datatype exception_kind =
  ILLEGAL_OPCODE | ILLEGAL_OPERATION | MISALIGNED_INSTRUCTION
  | MAX_INSTRUCTIONS_REACHED | INVALID_PROGRAM

datatype MachineException = MachineException exception_kind string nat

section \<open>The fastsim realizer without the C extension\<close>

text \<open>
  The decoder array is the pointer \<open>exec_decoder\<close>, indexed by \<open>pc / DIVISOR\<close>. The test
  that ends a block is written twice in \<open>realize_fastsim\<close>; it is one predicate here.
\<close>

type_synonym decoder = "nat \<Rightarrow> DecoderData"

definition ends_block :: "32 word \<Rightarrow> DecoderData \<Rightarrow> bool" where
  "ends_block opc entry \<longleftrightarrow>
     opc = RV32I_BRANCH \<or> opc = RV32I_SYSTEM
     \<or> opc = RV32I_JAL \<or> opc = RV32I_JALR
     \<or> opc = RV32I_AUIPC \<or> instr entry = FASTSIM_BLOCK_END"

text \<open>
  The backward loop of the \<open>!compressed_enabled\<close> branch. \<open>idxend\<close> is an \<open>unsigned\<close>,
  the store into the 16-bit field truncates, and \<open>pc -= 4\<close> wraps in the address type, so
  that the loop need not end: not returning is \<open>None\<close>.
\<close>

partial_function (option) fastsim_backward ::
  "nat \<Rightarrow> address \<Rightarrow> address \<Rightarrow> exec_bytes \<Rightarrow> decoder \<Rightarrow> 32 word \<Rightarrow> address \<Rightarrow> decoder option"
where
  "fastsim_backward W base_pc last_pc exec_segment exec_decoder idxend_acc pc =
     (if pc \<ge> base_pc then
        let instruction = read_instruction exec_segment (of_nat pc) (of_nat last_pc);
            entry = exec_decoder (pc div DIVISOR False);
            idxend_acc = (if ends_block (opcode instruction) entry then 0 else idxend_acc)
        in fastsim_backward W base_pc last_pc exec_segment
             (exec_decoder (pc div DIVISOR False := entry\<lparr>idxend := ucast idxend_acc\<rparr>))
             (idxend_acc + 1)
             (addr_wrap W (pc + 2 ^ (8 * W) - 4))
      else Some exec_decoder)"

definition realize_fastsim_nc ::
  "nat \<Rightarrow> address \<Rightarrow> address \<Rightarrow> exec_bytes \<Rightarrow> decoder \<Rightarrow> decoder option"
where
  "realize_fastsim_nc W base_pc last_pc exec_segment exec_decoder =
     fastsim_backward W base_pc last_pc exec_segment exec_decoder 0
       (addr_wrap W (last_pc + 2 ^ (8 * W) - 4))"

text \<open>What the realizer left in the entry of one PC (\<open>None\<close> when it does not return).\<close>

definition idxend_after_nc ::
  "nat \<Rightarrow> address \<Rightarrow> address \<Rightarrow> exec_bytes \<Rightarrow> decoder \<Rightarrow> address \<Rightarrow> 16 word option"
where
  "idxend_after_nc W base_pc last_pc exec_segment exec_decoder p =
     map_option (\<lambda>d. idxend (d (p div DIVISOR False)))
       (realize_fastsim_nc W base_pc last_pc exec_segment exec_decoder)"

definition entry_after_nc ::
  "nat \<Rightarrow> address \<Rightarrow> address \<Rightarrow> exec_bytes \<Rightarrow> decoder \<Rightarrow> address \<Rightarrow> DecoderData option"
where
  "entry_after_nc W base_pc last_pc exec_segment exec_decoder p =
     map_option (\<lambda>d. d (p div DIVISOR False))
       (realize_fastsim_nc W base_pc last_pc exec_segment exec_decoder)"

text \<open>The instruction that the realizer reads at a PC, and whether it ends a block there.\<close>

definition terminator_at :: "address \<Rightarrow> exec_bytes \<Rightarrow> decoder \<Rightarrow> address \<Rightarrow> bool" where
  "terminator_at last_pc exec_segment exec_decoder p \<longleftrightarrow>
     ends_block (opcode (read_instruction exec_segment (of_nat p) (of_nat last_pc)))
       (exec_decoder (p div DIVISOR False))"

text \<open>Concrete data: a buffer holding the 32-bit words of a list from a base address on
  (zero elsewhere), and a decoder of zeroed entries.\<close>

definition segment_of_words :: "address \<Rightarrow> 32 word list \<Rightarrow> exec_bytes" where
  "segment_of_words base ws a =
     (if base \<le> a \<and> a < base + 4 * length ws
      then ucast (drop_bit (8 * ((a - base) mod 4)) (ws ! ((a - base) div 4)))
      else 0)"

definition zero_entry :: DecoderData where
  "zero_entry = \<lparr>m_bytecode = 0, m_handler = 0, idxend = 0, icount = 0,
                 opcode_length = 0, instr_count = 0, instr = 0\<rparr>"

definition zero_decoder :: decoder where
  "zero_decoder = (\<lambda>_. zero_entry)"

section \<open>The fastsim realizer with the C extension\<close>

text \<open>\<open>is_regular_compressed<W>\<close>: a compressed instruction that cannot change the PC.\<close>

definition is_regular_compressed :: "nat \<Rightarrow> 16 word \<Rightarrow> bool" where
  "is_regular_compressed W ci =
     (if ci_opcode ci = CI_CODE 0b001 0b01 then W \<ge> 8
      else if ci_opcode ci = CI_CODE 0b101 0b01 \<or> ci_opcode ci = CI_CODE 0b110 0b01
              \<or> ci_opcode ci = CI_CODE 0b111 0b01 then False
      else if ci_opcode ci = CI_CODE 0b100 0b10 then
        let topbit = bit ci 12 in
        if \<not> topbit \<and> CR_rd ci \<noteq> 0 \<and> CR_rs2 ci = 0 then False
        else if topbit \<and> CR_rd ci \<noteq> 0 \<and> CR_rs2 ci = 0 then False
        else True
      else True)"

definition overflow_checked_instr_count :: "nat \<Rightarrow> 8 word" where
  "overflow_checked_instr_count count = (if count > 255 then 255 else of_nat count)"

text \<open>
  The first inner loop of the \<open>compressed_enabled\<close> branch: it collects the entries of a
  block (\<open>data\<close> holds pointers to entries, here their indices) and their length in
  half-words.
\<close>

partial_function (option) fastsim_collect ::
  "nat \<Rightarrow> exec_bytes \<Rightarrow> decoder \<Rightarrow> address \<Rightarrow> address \<Rightarrow> nat \<Rightarrow> nat list
     \<Rightarrow> (address \<times> nat \<times> nat list) option"
where
  "fastsim_collect W exec_segment exec_decoder last_pc pc datalength data =
     (if pc < last_pc then
        let entry = exec_decoder (pc div DIVISOR True);
            data = data @ [pc div DIVISOR True];
            instruction = read_instruction exec_segment (of_nat pc) (of_nat last_pc);
            opc = opcode instruction;
            length = length_instr instruction;
            pc = addr_wrap W (pc + length);
            datalength = datalength + length div 2
        in if (if length = 2 then \<not> is_regular_compressed W (ucast instruction)
               else ends_block opc entry)
           then Some (pc, datalength, data)
           else fastsim_collect W exec_segment exec_decoder last_pc pc datalength data
      else Some (pc, datalength, data))"

text \<open>
  The second inner loop, over the entries collected. With the C extension \<open>idxend\<close> is an
  8-bit bit-field, so the store keeps \<open>datalength\<close> modulo 256. \<open>datalength\<close> counts the
  half-words of the entries still to fill, so the \<open>size_t\<close> differences do not wrap.
\<close>

fun fastsim_fill ::
  "nat \<Rightarrow> exec_bytes \<Rightarrow> address \<Rightarrow> nat list \<Rightarrow> address \<Rightarrow> nat \<Rightarrow> decoder \<Rightarrow> decoder"
where
  "fastsim_fill W exec_segment last_pc [] block_pc datalength exec_decoder = exec_decoder"
| "fastsim_fill W exec_segment last_pc (entry # data) block_pc datalength exec_decoder =
     (let instruction = read_instruction exec_segment (of_nat block_pc) (of_nat last_pc);
          length = length_instr instruction
      in fastsim_fill W exec_segment last_pc data (addr_wrap W (block_pc + length))
           (datalength - length div 2)
           (exec_decoder (entry := (exec_decoder entry)
              \<lparr>idxend := of_nat (datalength mod 256),
               opcode_length := of_nat length,
               instr_count :=
                 overflow_checked_instr_count (datalength - List.length (entry # data))\<rparr>)))"

text \<open>The loop over blocks.\<close>

partial_function (option) fastsim_forward ::
  "nat \<Rightarrow> exec_bytes \<Rightarrow> address \<Rightarrow> address \<Rightarrow> decoder \<Rightarrow> decoder option"
where
  "fastsim_forward W exec_segment last_pc pc exec_decoder =
     (if pc < last_pc then
        Option.bind (fastsim_collect W exec_segment exec_decoder last_pc pc 0 [])
          (\<lambda>collected.
             fastsim_forward W exec_segment last_pc (fst collected)
               (fastsim_fill W exec_segment last_pc (snd (snd collected)) pc
                  (fst (snd collected)) exec_decoder))
      else Some exec_decoder)"

definition realize_fastsim_c ::
  "nat \<Rightarrow> address \<Rightarrow> address \<Rightarrow> exec_bytes \<Rightarrow> decoder \<Rightarrow> decoder option"
where
  "realize_fastsim_c W base_pc last_pc exec_segment exec_decoder =
     fastsim_forward W exec_segment last_pc base_pc exec_decoder"

text \<open>\<open>realize_fastsim\<close>, by the compile-time switch.\<close>

definition realize_fastsim ::
  "bool \<Rightarrow> nat \<Rightarrow> address \<Rightarrow> address \<Rightarrow> exec_bytes \<Rightarrow> decoder \<Rightarrow> decoder option"
where
  "realize_fastsim compressed_enabled W base_pc last_pc exec_segment exec_decoder =
     (if compressed_enabled
      then realize_fastsim_c W base_pc last_pc exec_segment exec_decoder
      else realize_fastsim_nc W base_pc last_pc exec_segment exec_decoder)"

text \<open>
  To state what the realizer leaves behind: the length in half-words of the instruction at an
  address, whether the instruction there ends its block, the instruction starts of the block
  that begins at an address (with the address where the block ends), and the addresses at
  which the realizer begins a block.
\<close>

definition hw_at :: "exec_bytes \<Rightarrow> address \<Rightarrow> address \<Rightarrow> nat" where
  "hw_at exec_segment last_pc q =
     length_instr (read_instruction exec_segment (of_nat q) (of_nat last_pc)) div 2"

definition halfwords :: "exec_bytes \<Rightarrow> address \<Rightarrow> address list \<Rightarrow> nat" where
  "halfwords exec_segment last_pc qs = sum_list (map (hw_at exec_segment last_pc) qs)"

definition stops_block :: "nat \<Rightarrow> exec_bytes \<Rightarrow> decoder \<Rightarrow> address \<Rightarrow> address \<Rightarrow> bool" where
  "stops_block W exec_segment exec_decoder last_pc q =
     (let instruction = read_instruction exec_segment (of_nat q) (of_nat last_pc)
      in if length_instr instruction = 2 then \<not> is_regular_compressed W (ucast instruction)
         else ends_block (opcode instruction) (exec_decoder (q div DIVISOR True)))"

inductive block_walk ::
  "nat \<Rightarrow> exec_bytes \<Rightarrow> decoder \<Rightarrow> address \<Rightarrow> address \<Rightarrow> address list \<Rightarrow> address \<Rightarrow> bool"
  for W exec_segment exec_decoder last_pc
where
  walk_stop: "q < last_pc \<Longrightarrow> stops_block W exec_segment exec_decoder last_pc q
     \<Longrightarrow> block_walk W exec_segment exec_decoder last_pc q [q]
           (q + 2 * hw_at exec_segment last_pc q)"
| walk_end: "q < last_pc \<Longrightarrow> \<not> stops_block W exec_segment exec_decoder last_pc q
     \<Longrightarrow> \<not> q + 2 * hw_at exec_segment last_pc q < last_pc
     \<Longrightarrow> block_walk W exec_segment exec_decoder last_pc q [q]
           (q + 2 * hw_at exec_segment last_pc q)"
| walk_step: "q < last_pc \<Longrightarrow> \<not> stops_block W exec_segment exec_decoder last_pc q
     \<Longrightarrow> q + 2 * hw_at exec_segment last_pc q < last_pc
     \<Longrightarrow> block_walk W exec_segment exec_decoder last_pc
           (q + 2 * hw_at exec_segment last_pc q) qs e
     \<Longrightarrow> block_walk W exec_segment exec_decoder last_pc q (q # qs) e"

inductive fastsim_block_start ::
  "nat \<Rightarrow> exec_bytes \<Rightarrow> decoder \<Rightarrow> address \<Rightarrow> address \<Rightarrow> address \<Rightarrow> bool"
  for W exec_segment exec_decoder last_pc
where
  start_here: "fastsim_block_start W exec_segment exec_decoder last_pc q q"
| start_later: "pc < last_pc \<Longrightarrow> block_walk W exec_segment exec_decoder last_pc pc qs e
     \<Longrightarrow> fastsim_block_start W exec_segment exec_decoder last_pc e q
     \<Longrightarrow> fastsim_block_start W exec_segment exec_decoder last_pc pc q"

text \<open>The three stores of the second loop into one entry, for the entry of address \<open>q\<close> when
  \<open>datalength\<close> half-words and \<open>n\<close> entries are left.\<close>

definition filled ::
  "exec_bytes \<Rightarrow> address \<Rightarrow> nat \<Rightarrow> nat \<Rightarrow> address \<Rightarrow> DecoderData \<Rightarrow> DecoderData"
where
  "filled exec_segment last_pc datalength n q entry =
     entry\<lparr>idxend := of_nat (datalength mod 256),
           opcode_length := of_nat (2 * hw_at exec_segment last_pc q),
           instr_count := overflow_checked_instr_count (datalength - n)\<rparr>"

section \<open>The registry of embedded translations\<close>

definition MAX_EMBEDDED :: nat where
  "MAX_EMBEDDED = 12"

text \<open>\<open>EmbeddedTranslation<W>\<close>; the three pointers are addresses, 0 the null pointer.\<close>

record EmbeddedTranslation =
  hash :: "32 word"
  nmappings :: "32 word"
  nhandlers :: "32 word"
  mappings :: nat
  handlers :: nat
  api_table :: nat

text \<open>\<open>EmbeddedTranslations<W>\<close>: a \<open>std::array\<close> of \<open>MAX_EMBEDDED\<close> entries and a count.\<close>

record EmbeddedTranslations =
  translation_array :: "EmbeddedTranslation list"
  count :: nat

text \<open>The static object is zeroed from BSS.\<close>

definition zero_translation :: EmbeddedTranslation where
  "zero_translation =
     \<lparr>hash = 0, nmappings = 0, nhandlers = 0, mappings = 0, handlers = 0, api_table = 0\<rparr>"

definition registered_embedded_translations :: EmbeddedTranslations where
  "registered_embedded_translations =
     \<lparr>translation_array = replicate MAX_EMBEDDED zero_translation, count = 0\<rparr>"

text \<open>
  \<open>register_translation\<close> on the registry it mutates: the result is the exception thrown, if
  any, and the registry afterwards.
\<close>

definition register_translation ::
  "EmbeddedTranslations \<Rightarrow> 32 word \<Rightarrow> nat \<Rightarrow> 32 word \<Rightarrow> nat \<Rightarrow> 32 word \<Rightarrow> nat
     \<Rightarrow> (MachineException + unit) \<times> EmbeddedTranslations"
where
  "register_translation reg hash_v mappings_p nmappings_v handlers_p nhandlers_v table_ptr =
     (if count reg \<ge> MAX_EMBEDDED then
        (Inl (MachineException INVALID_PROGRAM ''Too many embedded translations'' 0), reg)
      else
        let translation = (translation_array reg ! count reg)
              \<lparr>hash := hash_v, nmappings := nmappings_v, mappings := mappings_p,
               nhandlers := nhandlers_v, handlers := handlers_p, api_table := table_ptr\<rparr>
        in (Inr (), reg\<lparr>translation_array := (translation_array reg)[count reg := translation],
                        count := count reg + 1\<rparr>))"

text \<open>The arguments of one call, and successive calls (the static constructors of the
  embedded translations run one after the other; an exception ends the run).\<close>

type_synonym registration = "32 word \<times> nat \<times> 32 word \<times> nat \<times> 32 word \<times> nat"

fun register_call ::
  "EmbeddedTranslations \<Rightarrow> registration \<Rightarrow> (MachineException + unit) \<times> EmbeddedTranslations"
where
  "register_call reg (hash_v, mappings_p, nmappings_v, handlers_p, nhandlers_v, table_ptr) =
     register_translation reg hash_v mappings_p nmappings_v handlers_p nhandlers_v table_ptr"

fun register_calls ::
  "EmbeddedTranslations \<Rightarrow> registration list \<Rightarrow> (MachineException + unit) \<times> EmbeddedTranslations"
where
  "register_calls reg [] = (Inr (), reg)"
| "register_calls reg (r # rs) =
     (case register_call reg r of
        (Inl e, reg') \<Rightarrow> (Inl e, reg')
      | (Inr _, reg') \<Rightarrow> register_calls reg' rs)"

text \<open>The entry that a call stores.\<close>

fun stored_translation :: "registration \<Rightarrow> EmbeddedTranslation" where
  "stored_translation (hash_v, mappings_p, nmappings_v, handlers_p, nhandlers_v, table_ptr) =
     \<lparr>hash = hash_v, nmappings = nmappings_v, nhandlers = nhandlers_v,
      mappings = mappings_p, handlers = handlers_p, api_table = table_ptr\<rparr>"

section \<open>The handler table\<close>






text \<open>The registry after the calls of a list have all been stored, starting from the zeroed
  registry.\<close>

definition registry_after :: "registration list \<Rightarrow> EmbeddedTranslations" where
  "registry_after rs =
     \<lparr>translation_array = map stored_translation rs
          @ replicate (MAX_EMBEDDED - length rs) zero_translation,
      count = length rs\<rparr>"



section \<open>The translator: scanning a segment\<close>

text \<open>
  \<open>try_translate\<close> reads the segment with \<open>read_instruction\<close> and steps by the length of
  the instruction read when the C extension is compiled in, by 4 otherwise. The sums are
  taken in \<open>address_t\<close>.
\<close>

definition read_at :: "exec_bytes \<Rightarrow> address \<Rightarrow> address \<Rightarrow> instruction" where
  "read_at exec_data pc endbasepc = read_instruction exec_data (of_nat pc) (of_nat endbasepc)"

definition next_pc :: "bool \<Rightarrow> nat \<Rightarrow> address \<Rightarrow> instruction \<Rightarrow> address" where
  "next_pc compressed_enabled W pc instruction =
     addr_wrap W (pc + (if compressed_enabled then length_instr instruction else 4))"

subsection \<open>The pre-scan for GP\<close>

text \<open>
  One turn of the \<open>SCAN_FOR_GP\<close> loop: \<open>Some gp\<close> when the turn assigns \<open>gp\<close> and breaks,
  \<open>None\<close> when the loop goes on to the next instruction.
\<close>

definition gp_match :: "nat \<Rightarrow> exec_bytes \<Rightarrow> address \<Rightarrow> address \<Rightarrow> address option" where
  "gp_match W exec_data endbasepc pc =
     (let instruction = read_at exec_data pc endbasepc in
      if opcode instruction = RV32I_AUIPC then
        let auipc = instruction in
        if field_rd auipc = 3 then
          let addi = read_at exec_data (addr_wrap W (pc + 4)) endbasepc in
          if opcode addi = RV32I_OP_IMM \<and> field_funct3 addi = 0 then
            if field_rd addi = 3 \<and> field_rs1 addi = 3 then
              Some (addr_add_signed W (addr_add_signed W pc (Utype_upper_imm auipc))
                      (Itype_signed_imm addi))
            else None
          else Some (addr_add_signed W pc (Utype_upper_imm auipc))
        else None
      else None)"

text \<open>The loop; \<open>gp\<close> is 0 when it runs to the end of the segment.\<close>

partial_function (option) scan_for_gp ::
  "bool \<Rightarrow> nat \<Rightarrow> exec_bytes \<Rightarrow> address \<Rightarrow> address \<Rightarrow> address option"
where
  "scan_for_gp compressed_enabled W exec_data endbasepc pc =
     (if pc < endbasepc then
        (case gp_match W exec_data endbasepc pc of
           Some gp \<Rightarrow> Some gp
         | None \<Rightarrow>
             scan_for_gp compressed_enabled W exec_data endbasepc
               (next_pc compressed_enabled W pc (read_at exec_data pc endbasepc)))
      else Some 0)"

text \<open>The addresses at which a scan that starts at \<open>basepc\<close> reads an instruction.\<close>

inductive scan_position ::
  "bool \<Rightarrow> nat \<Rightarrow> exec_bytes \<Rightarrow> address \<Rightarrow> address \<Rightarrow> address \<Rightarrow> bool"
  for compressed_enabled W exec_data endbasepc basepc
where
  scan_start: "scan_position compressed_enabled W exec_data endbasepc basepc basepc"
| scan_next: "scan_position compressed_enabled W exec_data endbasepc basepc pc
     \<Longrightarrow> pc < endbasepc
     \<Longrightarrow> scan_position compressed_enabled W exec_data endbasepc basepc
           (next_pc compressed_enabled W pc (read_at exec_data pc endbasepc))"

text \<open>What the pre-scan looks for, on the instructions themselves: an AUIPC into \<open>x3\<close>, an
  ADDI (OP_IMM with funct3 0), and an ADDI from \<open>x3\<close> into \<open>x3\<close>.\<close>

definition is_auipc_gp :: "instruction \<Rightarrow> bool" where
  "is_auipc_gp w \<longleftrightarrow> opcode w = RV32I_AUIPC \<and> field_rd w = 3"

definition is_addi :: "instruction \<Rightarrow> bool" where
  "is_addi w \<longleftrightarrow> opcode w = RV32I_OP_IMM \<and> field_funct3 w = 0"

definition is_addi_gp :: "instruction \<Rightarrow> bool" where
  "is_addi_gp w \<longleftrightarrow> is_addi w \<and> field_rd w = 3 \<and> field_rs1 w = 3"

text \<open>The scan stops at \<open>pc\<close>: an AUIPC into \<open>x3\<close> whose successor is an ADDI from \<open>x3\<close>
  into \<open>x3\<close> or no ADDI at all.\<close>

definition gp_found :: "nat \<Rightarrow> exec_bytes \<Rightarrow> address \<Rightarrow> address \<Rightarrow> bool" where
  "gp_found W exec_data endbasepc pc \<longleftrightarrow>
     is_auipc_gp (read_at exec_data pc endbasepc)
     \<and> (is_addi (read_at exec_data (addr_wrap W (pc + 4)) endbasepc)
          \<longrightarrow> is_addi_gp (read_at exec_data (addr_wrap W (pc + 4)) endbasepc))"

section \<open>The translation hash\<close>









subsection \<open>The block scanner\<close>








text \<open>
  \<open>TransInfo\<close> (declared in \<open>tr_types.hpp\<close>, outside the sources), with the fields that
  \<open>try_translate\<close> fills; the back pointer to the block list and the reference to the shared
  set of global jump locations are passed along separately.
\<close>

record TransInfo =
  ti_instr :: "instruction list"
  ti_basepc :: address
  ti_endpc :: address
  ti_segment_basepc :: address
  ti_segment_endpc :: address
  ti_gp :: address
  ti_trace_instructions :: bool
  ti_ignore_instruction_limit :: bool
  ti_use_shared_execute_segments :: bool
  ti_jump_locations :: "address set"
  ti_arena_ptr :: nat






section \<open>The code emitter: branches and jumps\<close>

text \<open>\<open>std::to_string\<close> on unsigned and signed integers, and \<open>printf\<close>'s \<open>%x\<close>.\<close>

function to_string :: "nat \<Rightarrow> string" where
  "to_string n =
     (if n < 10 then [''0123456789'' ! n]
      else to_string (n div 10) @ [''0123456789'' ! (n mod 10)])"
  by pat_completeness auto
termination
  by (relation "measure id") auto

definition to_string_signed :: "int \<Rightarrow> string" where
  "to_string_signed i = (if i < 0 then ''-'' @ to_string (nat (- i)) else to_string (nat i))"

function to_hex :: "nat \<Rightarrow> string" where
  "to_hex n =
     (if n < 16 then [''0123456789abcdef'' ! n]
      else to_hex (n div 16) @ [''0123456789abcdef'' ! (n mod 16)])"
  by pat_completeness auto
termination
  by (relation "measure id") auto

definition ALIGN_MASK :: "bool \<Rightarrow> nat" where
  "ALIGN_MASK compressed_enabled = (if compressed_enabled then 0x1 else 0x3)"

definition LOOP_EXPRESSION :: string where
  "LOOP_EXPRESSION = ''LIKELY(counter < max_counter)''"

text \<open>\<open>funclabel\<close>: \<open>snprintf\<close> of \<open>"%s_%" PRIx64\<close> (the label fits its buffer).\<close>

definition funclabel :: "string \<Rightarrow> nat \<Rightarrow> string" where
  "funclabel func addr = func @ ''_'' @ to_hex addr"

definition STRADDR :: "nat \<Rightarrow> string" where
  "STRADDR x = to_string x @ ''UL''"

text \<open>
  The state of an \<open>Emitter\<close> that emitting a branch or a jump reads and writes (the members
  carry the prefix \<open>e_\<close>; \<open>CACHED_REGISTERS\<close> is the constant \<open>false\<close>, so the register
  cache is left out). \<open>labels\<close> and \<open>mapping_labels\<close> are sets of \<open>unsigned\<close>.
\<close>

record Emitter =
  e_code :: string
  e_idx :: nat
  e_pc :: address
  e_instr :: instruction
  e_instr_length :: nat
  e_instr_counter :: nat
  e_func :: string
  e_labels :: "nat set"
  e_mapping_labels :: "nat set"
  e_forward_declared :: "string list"

record BranchInfo =
  sign :: bool
  ignore_instruction_limit :: bool
  jump_pc :: nat
  call_pc :: nat

definition PCRELA :: "nat \<Rightarrow> Emitter \<Rightarrow> int \<Rightarrow> address" where
  "PCRELA W em x = addr_add_signed W (e_pc em) x"

definition PCRELS :: "nat \<Rightarrow> Emitter \<Rightarrow> int \<Rightarrow> string" where
  "PCRELS W em x = to_string (PCRELA W em x) @ ''UL''"

definition FUNCLABEL :: "Emitter \<Rightarrow> nat \<Rightarrow> string" where
  "FUNCLABEL em addr = funclabel (e_func em) addr"

text \<open>\<open>add_code\<close> appends each of its arguments and a newline.\<close>

definition add_code :: "string list \<Rightarrow> Emitter \<Rightarrow> Emitter" where
  "add_code addenda em = em\<lparr>e_code := e_code em @ concat (map (\<lambda>a. a @ ''\<newline>'') addenda)\<rparr>"

definition append_code :: "string \<Rightarrow> Emitter \<Rightarrow> Emitter" where
  "append_code s em = em\<lparr>e_code := e_code em @ s\<rparr>"

definition from_reg :: "TransInfo \<Rightarrow> nat \<Rightarrow> string" where
  "from_reg tinfo reg =
     (if reg = 3 \<and> ti_gp tinfo \<noteq> 0 then to_string (ti_gp tinfo)
      else if reg \<noteq> 0 then ''cpu->r['' @ to_string reg @ '']''
      else ''(addr_t)0'')"

definition to_reg :: "nat \<Rightarrow> string" where
  "to_reg reg = (if reg \<noteq> 0 then ''cpu->r['' @ to_string reg @ '']'' else ''(addr_t)0'')"

definition exit_function :: "TransInfo \<Rightarrow> string \<Rightarrow> bool \<Rightarrow> Emitter \<Rightarrow> Emitter" where
  "exit_function tinfo new_pc add_bracket em =
     (let return_code =
            (if ti_ignore_instruction_limit tinfo
             then ''return (ReturnValues){0, max_counter};''
             else ''return (ReturnValues){counter, max_counter};'')
      in add_code [if new_pc \<noteq> ''cpu->pc'' then ''cpu->pc = '' @ new_pc @ '';'' else '''',
                   return_code,
                   if add_bracket then '' }'' else ''''] em)"

definition increment_counter_so_far :: "TransInfo \<Rightarrow> Emitter \<Rightarrow> Emitter" where
  "increment_counter_so_far tinfo em =
     (let icount = e_instr_counter em;
          em = em\<lparr>e_instr_counter := 0\<rparr>
      in if icount > 0 \<and> \<not> ti_ignore_instruction_limit tinfo
         then append_code (''counter += '' @ to_string icount @ '';\<newline>'') em
         else em)"

text \<open>\<open>add_reentry_next\<close>: the emitter afterwards, and the value returned.\<close>

definition add_reentry_next :: "TransInfo \<Rightarrow> Emitter \<Rightarrow> Emitter \<times> bool" where
  "add_reentry_next tinfo em =
     (if e_pc em + e_instr_length em \<ge> ti_endpc tinfo then (em, False)
      else (em\<lparr>e_mapping_labels := insert (e_idx em + 1) (e_mapping_labels em)\<rparr>, True))"

definition find_block_base :: "TransInfo list \<Rightarrow> address \<Rightarrow> nat" where
  "find_block_base blocks pc =
     (case filter (\<lambda>blk. pc \<ge> ti_basepc blk \<and> pc < ti_endpc blk) blocks of
        [] \<Rightarrow> 0
      | blk # _ \<Rightarrow> ti_basepc blk)"

definition within_segment :: "TransInfo \<Rightarrow> address \<Rightarrow> bool" where
  "within_segment tinfo addr \<longleftrightarrow> addr \<ge> ti_segment_basepc tinfo \<and> addr < ti_segment_endpc tinfo"

text \<open>\<open>UNKNOWN_INSTRUCTION\<close>, in the build without libtcc.\<close>

definition UNKNOWN_INSTRUCTION :: "Emitter \<Rightarrow> Emitter" where
  "UNKNOWN_INSTRUCTION em =
     (if e_instr em \<noteq> 0 then
        append_code
          (''{ static int handler_idx = 0;\<newline>''
           @ ''if (handler_idx) api.handlers[handler_idx](cpu, ''
               @ to_string (unat (e_instr em)) @ '');\<newline>''
           @ ''else handler_idx = api.execute(cpu, ''
               @ to_string (unat (e_instr em)) @ ''); }\<newline>'') em
      else
        append_code (''api.exception(cpu, '' @ STRADDR (e_pc em) @ '', ILLEGAL_OPCODE);\<newline>'')
          em)"

text \<open>\<open>Emitter::add_branch\<close>.\<close>

definition add_branch ::
  "bool \<Rightarrow> nat \<Rightarrow> TransInfo \<Rightarrow> BranchInfo \<Rightarrow> string \<Rightarrow> Emitter \<Rightarrow> Emitter"
where
  "add_branch compressed_enabled W tinfo binfo op em =
     (let rs1 = unat (field_rs1 (e_instr em));
          rs2 = unat (field_rs2 (e_instr em));
          em = (if \<not> sign binfo
                then append_code (''if ('' @ from_reg tinfo rs1 @ op @ from_reg tinfo rs2
                                   @ '') {\<newline>'') em
                else append_code (''if ((saddr_t)'' @ from_reg tinfo rs1 @ op @ '' (saddr_t)''
                                   @ from_reg tinfo rs2 @ '') {\<newline>'') em)
      in if PCRELA W em (Btype_signed_imm (e_instr em)) AND ALIGN_MASK compressed_enabled \<noteq> 0
         then append_code
                (''api.exception(cpu, '' @ PCRELS W em 0
                  @ '', MISALIGNED_INSTRUCTION); return (ReturnValues){0, 0};\<newline>''
                  @ ''}\<newline>'') em
         else if jump_pc binfo \<noteq> 0
                 \<and> (jump_pc binfo > e_pc em \<or> ignore_instruction_limit binfo)
         then append_code (''goto '' @ FUNCLABEL em (jump_pc binfo) @ ''; }\<newline>'') em
         else
           let em = (if jump_pc binfo \<noteq> 0
                     then append_code (''if ('' @ LOOP_EXPRESSION @ '') goto ''
                                        @ FUNCLABEL em (jump_pc binfo) @ '';\<newline>'') em
                     else em)
           in exit_function tinfo (PCRELS W em (Btype_signed_imm (e_instr em))) True em)"

text \<open>
  The \<open>RV32I_BRANCH\<close> case of \<open>Emitter::emit\<close>. \<open>dest_pc\<close> is the \<open>address_t\<close> sum.
  First the \<open>if\<close> chain that picks \<open>jump_pc\<close> (and records a forward label), then the
  \<open>switch\<close> on \<open>funct3\<close>.
\<close>

definition branch_jump_pc :: "nat \<Rightarrow> TransInfo \<Rightarrow> Emitter \<Rightarrow> Emitter \<times> nat" where
  "branch_jump_pc W tinfo em =
     (let offset = Btype_signed_imm (e_instr em);
          dest_pc = addr_add_signed W (e_pc em) offset
      in if dest_pc = ti_basepc tinfo then (em, dest_pc)
         else if offset > 0 \<and> dest_pc < ti_endpc tinfo
         then (em\<lparr>e_labels := insert (dest_pc mod 2 ^ 32) (e_labels em)\<rparr>, dest_pc)
         else if dest_pc \<in> ti_jump_locations tinfo
                 \<and> dest_pc \<ge> ti_basepc tinfo \<and> dest_pc < ti_endpc tinfo
         then (em, dest_pc)
         else (em, 0))"

definition emit_BRANCH :: "bool \<Rightarrow> nat \<Rightarrow> TransInfo \<Rightarrow> Emitter \<Rightarrow> Emitter" where
  "emit_BRANCH compressed_enabled W tinfo em =
     (let em = increment_counter_so_far tinfo em;
          call_pc = 0;
          (em, jump_pc) = branch_jump_pc W tinfo em;
          funct3 = field_funct3 (e_instr em);
          binfo = (\<lambda>s. \<lparr>sign = s, ignore_instruction_limit = ti_ignore_instruction_limit tinfo,
                         jump_pc = jump_pc, call_pc = call_pc\<rparr>)
      in if funct3 = 0 then add_branch compressed_enabled W tinfo (binfo False) '' == '' em
         else if funct3 = 1 then add_branch compressed_enabled W tinfo (binfo False) '' != '' em
         else if funct3 = 2 \<or> funct3 = 3 then UNKNOWN_INSTRUCTION em
         else if funct3 = 4 then add_branch compressed_enabled W tinfo (binfo True) '' < '' em
         else if funct3 = 5 then add_branch compressed_enabled W tinfo (binfo True) '' >= '' em
         else if funct3 = 6 then add_branch compressed_enabled W tinfo (binfo False) '' < '' em
         else add_branch compressed_enabled W tinfo (binfo False) '' >= '' em)"

text \<open>The destination that the \<open>RV32I_JAL\<close> case computes:
  \<open>(pc + jump_offset) & ~address_t(ALIGN_MASK)\<close>.\<close>

definition JAL_dest_pc :: "bool \<Rightarrow> nat \<Rightarrow> Emitter \<Rightarrow> address" where
  "JAL_dest_pc compressed_enabled W em =
     addr_add_signed W (e_pc em) (Jtype_jump_offset (e_instr em))
       AND (2 ^ (8 * W) - 1 - ALIGN_MASK compressed_enabled)"

text \<open>
  The \<open>RV32I_JAL\<close> case of \<open>Emitter::emit\<close>; \<open>next_pc\<close> is the address after the
  instruction, \<open>blocks\<close> the block list behind \<open>tinfo.blocks\<close>, and
  \<open>global_jump_locations\<close> the shared set.
\<close>

definition emit_JAL ::
  "bool \<Rightarrow> nat \<Rightarrow> TransInfo \<Rightarrow> TransInfo list \<Rightarrow> address set \<Rightarrow> address \<Rightarrow> Emitter \<Rightarrow> Emitter"
where
  "emit_JAL compressed_enabled W tinfo blocks global_jump_locations nextpc em =
     (let em = increment_counter_so_far tinfo em;
          rd = unat (field_rd (e_instr em));
          em = (if rd \<noteq> 0
                then add_code [to_reg rd @ '' = '' @ PCRELS W em (int (e_instr_length em))
                                 @ '';\<newline>''] em
                else em);
          dest_pc = JAL_dest_pc compressed_enabled W em;
          add_reentry = (rd \<noteq> 0);
          (em, add_reentry, already_exited) =
            (if dest_pc \<ge> ti_basepc tinfo \<and> dest_pc < ti_endpc tinfo then
               if dest_pc > e_pc em then
                 (add_code [''goto '' @ FUNCLABEL em dest_pc @ '';'']
                    (em\<lparr>e_labels := insert (dest_pc mod 2 ^ 32) (e_labels em)\<rparr>),
                  add_reentry, False)
               else if ti_ignore_instruction_limit tinfo then
                 (add_code [''goto '' @ FUNCLABEL em dest_pc @ '';''] em,
                  add_reentry \<or> rd = 0, False)
               else
                 (add_code [''if ('' @ LOOP_EXPRESSION @ '') goto '' @ FUNCLABEL em dest_pc
                              @ '';''] em,
                  add_reentry \<or> rd = 0, False)
             else if dest_pc \<in> global_jump_locations \<and> within_segment tinfo dest_pc then
               let target_funcaddr = find_block_base blocks dest_pc in
               if target_funcaddr \<noteq> 0 \<and> dest_pc > e_pc em then
                 let target_func = funclabel ''f'' target_funcaddr;
                     em = add_code [''{ReturnValues rv;''] em;
                     em = em\<lparr>e_forward_declared := e_forward_declared em @ [target_func]\<rparr>;
                     em = (if \<not> ti_ignore_instruction_limit tinfo
                           then add_code [''counter = rv.counter;'']
                                  (add_code [''rv = '' @ target_func
                                     @ ''(cpu, counter, max_counter, '' @ STRADDR dest_pc
                                     @ '');''] em)
                           else add_code [''rv = '' @ target_func
                                     @ ''(cpu, 0, max_counter, '' @ STRADDR dest_pc @ '');''] em);
                     em = add_code [''max_counter = rv.max_counter;}''] em;
                     em = (if rd \<noteq> 0 then
                             let (em, reentry) = add_reentry_next tinfo em in
                             if reentry then
                               if ti_ignore_instruction_limit tinfo
                               then add_code [''if (cpu->pc == '' @ STRADDR nextpc @ '') goto ''
                                                @ FUNCLABEL em nextpc @ '';''] em
                               else add_code [''if ('' @ LOOP_EXPRESSION @ '' && cpu->pc == ''
                                                @ STRADDR nextpc @ '') goto ''
                                                @ FUNCLABEL em nextpc @ '';''] em
                             else em
                           else em)
                 in (exit_function tinfo ''cpu->pc'' False em, add_reentry, True)
               else (em, add_reentry, False)
             else (em, add_reentry, False));
          em = (if \<not> already_exited then exit_function tinfo (STRADDR dest_pc) False em else em)
      in if add_reentry then fst (add_reentry_next tinfo em) else em)"

text \<open>A block of four instruction slots at \<open>0x1000\<close> and an emitter at its first instruction,
  as \<open>Emitter::emit\<close> has set it up when it reaches the \<open>switch\<close>.\<close>

definition sample_tinfo :: "instruction list \<Rightarrow> TransInfo" where
  "sample_tinfo is =
     \<lparr>ti_instr = is, ti_basepc = 4096, ti_endpc = 4112,
      ti_segment_basepc = 4096, ti_segment_endpc = 4112, ti_gp = 0,
      ti_trace_instructions = False, ti_ignore_instruction_limit = False,
      ti_use_shared_execute_segments = False, ti_jump_locations = {},
      ti_arena_ptr = 0\<rparr>"

definition sample_emitter :: "instruction \<Rightarrow> Emitter" where
  "sample_emitter i =
     \<lparr>e_code = [], e_idx = 0, e_pc = 4096, e_instr = i, e_instr_length = 4,
      e_instr_counter = 1, e_func = funclabel ''f'' 4096, e_labels = {},
      e_mapping_labels = {}, e_forward_declared = []\<rparr>"

section \<open>The instruction reader returns little-endian words\<close>

lemma load_u16_cat: "load_u16 buf a = (word_cat (buf (a + 1)) (buf a) :: 16 word)"
  unfolding load_u16_def
  by (rule bit_word_eqI) (auto simp add: bit_simps dest: bit_imp_le_length)

lemma UnalignedLoad32_cat:
  "UnalignedLoad32 buf a = (word_cat (load_u16 buf (a + 2)) (load_u16 buf a) :: 32 word)"
  unfolding UnalignedLoad32_def
  by (rule bit_word_eqI) (auto simp add: bit_simps dest: bit_imp_le_length)

lemma uint_cat_8_8:
  "uint (word_cat (h :: 8 word) (l :: 8 word) :: 16 word) = uint l + 256 * uint h"
proof -
  have l: "0 \<le> uint l" "uint l < 256" using uint_lt2p [of l] by simp_all
  have h: "0 \<le> uint h" "uint h < 256" using uint_lt2p [of h] by simp_all
  have "uint (word_cat h l :: 16 word) = take_bit 16 (concat_bit 8 (uint l) (uint h))"
    by (simp only: word_cat_eq' uint_word_of_int_eq len_bit0 len_num1 mult_1_right) simp
  also have "\<dots> = (uint l mod 256 + 256 * uint h) mod 65536"
    by (simp add: concat_bit_eq take_bit_eq_mod push_bit_eq_mult mult.commute)
  also have "\<dots> = uint l + 256 * uint h" using l h by simp
  finally show ?thesis .
qed

lemma uint_cat_16_16:
  "uint (word_cat (h :: 16 word) (l :: 16 word) :: 32 word) = uint l + 65536 * uint h"
proof -
  have l: "0 \<le> uint l" "uint l < 65536" using uint_lt2p [of l] by simp_all
  have h: "0 \<le> uint h" "uint h < 65536" using uint_lt2p [of h] by simp_all
  have "uint (word_cat h l :: 32 word) = take_bit 32 (concat_bit 16 (uint l) (uint h))"
    by (simp only: word_cat_eq' uint_word_of_int_eq len_bit0 len_num1 mult_1_right) simp
  also have "\<dots> = (uint l mod 65536 + 65536 * uint h) mod 4294967296"
    by (simp add: concat_bit_eq take_bit_eq_mod push_bit_eq_mult mult.commute)
  also have "\<dots> = uint l + 65536 * uint h" using l h by simp
  finally show ?thesis .
qed

lemma unat_load_u16: "unat (load_u16 buf a) = unat (buf a) + 256 * unat (buf (a + 1))"
proof -
  have "int (unat (load_u16 buf a)) = int (unat (buf a) + 256 * unat (buf (a + 1)))"
    by (simp add: load_u16_cat uint_cat_8_8)
  then show ?thesis by (rule int_int_eq [THEN iffD1])
qed

lemma unat_UnalignedLoad32:
  "unat (UnalignedLoad32 buf a) = unat (load_u16 buf a) + 65536 * unat (load_u16 buf (a + 2))"
proof -
  have "int (unat (UnalignedLoad32 buf a))
      = int (unat (load_u16 buf a) + 65536 * unat (load_u16 buf (a + 2)))"
    by (simp add: UnalignedLoad32_cat uint_cat_16_16)
  then show ?thesis by (rule int_int_eq [THEN iffD1])
qed

lemma unat_AlignedLoad16: "unat (AlignedLoad16 buf a) = unat (load_u16 buf a)"
proof -
  have "unat (load_u16 buf a) < 2 ^ 32"
    using unsigned_less [of "load_u16 buf a", where ?'a = nat] by simp
  then show ?thesis
    by (simp add: AlignedLoad16_def unsigned_ucast_eq take_bit_nat_eq_self)
qed

lemma le_bytes_2: "le_bytes buf a 2 = unat (buf a) + 256 * unat (buf (a + 1))"
  by (simp add: le_bytes_def numeral_2_eq_2)

lemma le_bytes_4:
  "le_bytes buf a 4 = unat (buf a) + 256 * unat (buf (a + 1))
     + 65536 * unat (buf (a + 2)) + 16777216 * unat (buf (a + 3))"
proof -
  have "{..<4::nat} = {0, 1, 2, 3}" by auto
  then show ?thesis by (simp add: le_bytes_def add.commute)
qed

lemma unat_UnalignedLoad32_le_bytes: "unat (UnalignedLoad32 buf a) = le_bytes buf a 4"
  by (simp add: unat_UnalignedLoad32 unat_load_u16 le_bytes_4 numeral_3_eq_3)

lemma unat_AlignedLoad16_le_bytes: "unat (AlignedLoad16 buf a) = le_bytes buf a 2"
  by (simp add: unat_AlignedLoad16 unat_load_u16 le_bytes_2)

text \<open>
  Claim C5. For every buffer, \<open>pc\<close> and \<open>end_pc\<close> with \<open>pc < end_pc\<close>, the reader returns the
  32-bit little-endian word of the four bytes at \<open>pc\<close> when \<open>pc + 4 \<le> end_pc\<close>, and otherwise
  the 16-bit little-endian half-word of the two bytes at \<open>pc\<close>, zero extended. The comparison
  is the reader's own, on \<open>uint64_t\<close>.
\<close>

theorem read_instruction_little_endian:
  assumes "pc < end_pc"
  shows "unat (read_instruction buf pc end_pc) =
           (if pc + 4 \<le> end_pc then le_bytes buf (unat pc) 4 else le_bytes buf (unat pc) 2)"
  by (simp add: read_instruction_def unat_UnalignedLoad32_le_bytes unat_AlignedLoad16_le_bytes)

theorem read_instruction_little_endian_witness:
  "(4096 :: 64 word) < 4100
   \<and> unat (read_instruction (segment_of_words 4096 [0x00818193]) 4096 4100) = 0x00818193"
proof -
  have h: "(4096 :: 64 word) < 4100" by simp
  have "unat (read_instruction (segment_of_words 4096 [0x00818193]) 4096 4100) = 0x00818193"
    using read_instruction_little_endian [OF h, of "segment_of_words 4096 [0x00818193]"]
    by (simp add: le_bytes_4 segment_of_words_def)
  with h show ?thesis by (intro conjI)
qed

section \<open>The fastsim realizer without the C extension: results\<close>

lemma wrap_sub4_nat: "4 \<le> (x::nat) \<Longrightarrow> x < M \<Longrightarrow> (x + M - 4) mod M = x - 4"
proof -
  assume a: "4 \<le> x" "x < M"
  have "(x + M - 4) mod M = ((x - 4) + M) mod M" using a by (simp add: algebra_simps)
  also have "\<dots> = (x - 4) mod M" by simp
  also have "\<dots> = x - 4" using a by simp
  finally show ?thesis .
qed

lemma addr_wrap_sub4: "4 \<le> x \<Longrightarrow> x < 2 ^ (8 * W) \<Longrightarrow> addr_wrap W (x + 2 ^ (8 * W) - 4) = x - 4"
  unfolding addr_wrap_def by (rule wrap_sub4_nat)

lemma ucast_succ_32_16: "(ucast (a + 1 :: 32 word) :: 16 word) = ucast a + 1"
proof -
  have "unat (ucast (a + 1 :: 32 word) :: 16 word) = unat (ucast a + 1 :: 16 word)"
    apply (simp add: unsigned_ucast_eq unat_word_ariths take_bit_eq_mod)
    apply (simp add: mod_mod_cancel mod_simps)
    done
  then show ?thesis by (rule word_unat_eq_iff [THEN iffD2])
qed

lemma ends_block_idxend_update [simp]:
  "ends_block opc (e\<lparr>idxend := v\<rparr>) = ends_block opc e"
  by (simp add: ends_block_def)

lemma pos_div: "(base + 4 * k) div DIVISOR False = base div 4 + k"
  by (simp add: DIVISOR_def)

lemma fastsim_backward_run:
  assumes "4 \<le> base" "base + 4 * m \<le> 2 ^ (8 * W)"
  shows "\<exists>d. fastsim_backward W base lastpc seg dec acc (base + 4 * m - 4) = Some d
      \<and> (\<forall>i. i < base div 4 \<or> base div 4 + m \<le> i \<longrightarrow> d i = dec i)
      \<and> (\<forall>i. d i = (dec i)\<lparr>idxend := idxend (d i)\<rparr>)
      \<and> (0 < m \<longrightarrow> idxend (d (base div 4 + (m - 1))) =
            (if terminator_at lastpc seg dec (base + 4 * (m - 1)) then 0 else ucast acc))
      \<and> (\<forall>k. Suc k < m \<longrightarrow> idxend (d (base div 4 + k)) =
            (if terminator_at lastpc seg dec (base + 4 * k) then 0
             else idxend (d (base div 4 + Suc k)) + 1))"
  using assms
proof (induction m arbitrary: dec acc)
  case 0
  then have "\<not> base \<le> base - 4" by simp
  then have "fastsim_backward W base lastpc seg dec acc (base + 4 * 0 - 4) = Some dec"
    by (subst fastsim_backward.simps) simp
  then show ?case by simp
next
  case (Suc m)
  let ?pc = "base + 4 * m"
  let ?a1 = "if terminator_at lastpc seg dec ?pc then 0 else acc"
  let ?dec1 = "dec (base div 4 + m := (dec (base div 4 + m))\<lparr>idxend := ucast ?a1\<rparr>)"
  have pc: "base + 4 * Suc m - 4 = ?pc" by simp
  have nxt: "addr_wrap W (?pc + 2 ^ (8 * W) - 4) = base + 4 * m - 4"
    using Suc.prems by (intro addr_wrap_sub4) simp_all
  have step: "fastsim_backward W base lastpc seg dec acc ?pc
      = fastsim_backward W base lastpc seg ?dec1 (?a1 + 1) (base + 4 * m - 4)"
    by (subst fastsim_backward.simps)
       (simp add: Let_def pos_div terminator_at_def nxt)
  have term_eq: "terminator_at lastpc seg ?dec1 p = terminator_at lastpc seg dec p" for p
    by (simp add: terminator_at_def)
  have b: "base + 4 * m \<le> 2 ^ (8 * W)" using Suc.prems by simp
  note ih = Suc.IH [OF Suc.prems(1) b, of ?dec1 "?a1 + 1", unfolded term_eq]
  from ih obtain d where d: "fastsim_backward W base lastpc seg ?dec1 (?a1 + 1) (base + 4 * m - 4) = Some d"
    and frame: "\<forall>i. i < base div 4 \<or> base div 4 + m \<le> i \<longrightarrow> d i = ?dec1 i"
    and shape: "\<forall>i. d i = (?dec1 i)\<lparr>idxend := idxend (d i)\<rparr>"
    and top: "0 < m \<longrightarrow> idxend (d (base div 4 + (m - 1))) =
            (if terminator_at lastpc seg dec (base + 4 * (m - 1)) then 0 else ucast (?a1 + 1))"
    and rec: "\<forall>k. Suc k < m \<longrightarrow> idxend (d (base div 4 + k)) =
            (if terminator_at lastpc seg dec (base + 4 * k) then 0
             else idxend (d (base div 4 + Suc k)) + 1)"
    by blast
  have dm: "d (base div 4 + m) = ?dec1 (base div 4 + m)" using frame by simp
  have "fastsim_backward W base lastpc seg dec acc (base + 4 * Suc m - 4) = Some d"
    using step d pc by simp
  moreover have "\<forall>i. i < base div 4 \<or> base div 4 + Suc m \<le> i \<longrightarrow> d i = dec i"
    using frame by auto
  moreover have "\<forall>i. d i = (dec i)\<lparr>idxend := idxend (d i)\<rparr>"
  proof
    fix i
    from shape have v: "d i = (?dec1 i)\<lparr>idxend := idxend (d i)\<rparr>" by blast
    show "d i = (dec i)\<lparr>idxend := idxend (d i)\<rparr>"
      by (subst v) simp
  qed
  moreover have "idxend (d (base div 4 + (Suc m - 1))) =
            (if terminator_at lastpc seg dec (base + 4 * (Suc m - 1)) then 0 else ucast acc)"
    using dm by simp
  moreover have "\<forall>k. Suc k < Suc m \<longrightarrow> idxend (d (base div 4 + k)) =
            (if terminator_at lastpc seg dec (base + 4 * k) then 0
             else idxend (d (base div 4 + Suc k)) + 1)"
  proof (intro allI impI)
    fix k assume k: "Suc k < Suc m"
    show "idxend (d (base div 4 + k)) =
            (if terminator_at lastpc seg dec (base + 4 * k) then 0
             else idxend (d (base div 4 + Suc k)) + 1)"
    proof (cases "Suc k = m")
      case True
      then have "0 < m" and km: "k = m - 1" by simp_all
      have "idxend (d (base div 4 + Suc k)) = ucast ?a1" using dm True by simp
      then show ?thesis using top \<open>0 < m\<close> km True
        by (simp add: ucast_succ_32_16)
    next
      case False
      then have "Suc k < m" using k by simp
      then show ?thesis using rec by simp
    qed
  qed
  ultimately show ?case by blast
qed

lemma realize_fastsim_nc_run:
  assumes "4 \<le> base_pc" "last_pc = base_pc + 4 * n" "last_pc \<le> 2 ^ (8 * W)"
  shows "\<exists>d. realize_fastsim_nc W base_pc last_pc seg dec = Some d
      \<and> (\<forall>i. i < base_pc div 4 \<or> base_pc div 4 + n \<le> i \<longrightarrow> d i = dec i)
      \<and> (\<forall>i. d i = (dec i)\<lparr>idxend := idxend (d i)\<rparr>)
      \<and> (\<forall>k<n. idxend (d ((base_pc + 4 * k) div DIVISOR False)) =
            (if terminator_at last_pc seg dec (base_pc + 4 * k) \<or> Suc k = n then 0
             else idxend (d ((base_pc + 4 * Suc k) div DIVISOR False)) + 1))"
proof -
  have start: "addr_wrap W (last_pc + 2 ^ (8 * W) - 4) = base_pc + 4 * n - 4"
  proof (cases "last_pc = 2 ^ (8 * W)")
    case True
    have "2 ^ (8 * W) + 2 ^ (8 * W) - 4 = (2 ^ (8 * W) - 4) + (2::nat) ^ (8 * W)"
      using assms True by simp
    then have "addr_wrap W (last_pc + 2 ^ (8 * W) - 4) = (2 ^ (8 * W) - 4) mod 2 ^ (8 * W)"
      unfolding addr_wrap_def True by (metis mod_add_self2)
    also have "\<dots> = 2 ^ (8 * W) - 4" using assms True by simp
    finally show ?thesis using assms True by simp
  next
    case False
    then have "last_pc < 2 ^ (8 * W)" using assms by simp
    moreover have "4 \<le> last_pc" using assms by simp
    ultimately show ?thesis using assms(2) by (simp add: addr_wrap_sub4)
  qed
  have b: "base_pc + 4 * n \<le> 2 ^ (8 * W)" using assms by simp
  from fastsim_backward_run [OF assms(1) b, of last_pc seg dec 0]
  obtain d where d: "fastsim_backward W base_pc last_pc seg dec 0 (base_pc + 4 * n - 4) = Some d"
    and frame: "\<forall>i. i < base_pc div 4 \<or> base_pc div 4 + n \<le> i \<longrightarrow> d i = dec i"
    and shape: "\<forall>i. d i = (dec i)\<lparr>idxend := idxend (d i)\<rparr>"
    and top: "0 < n \<longrightarrow> idxend (d (base_pc div 4 + (n - 1))) =
            (if terminator_at last_pc seg dec (base_pc + 4 * (n - 1)) then 0 else ucast (0 :: 32 word))"
    and rec: "\<forall>k. Suc k < n \<longrightarrow> idxend (d (base_pc div 4 + k)) =
            (if terminator_at last_pc seg dec (base_pc + 4 * k) then 0
             else idxend (d (base_pc div 4 + Suc k)) + 1)"
    by blast
  have "realize_fastsim_nc W base_pc last_pc seg dec = Some d"
    by (simp add: realize_fastsim_nc_def start d)
  moreover have "\<forall>k<n. idxend (d ((base_pc + 4 * k) div DIVISOR False)) =
            (if terminator_at last_pc seg dec (base_pc + 4 * k) \<or> Suc k = n then 0
             else idxend (d ((base_pc + 4 * Suc k) div DIVISOR False)) + 1)"
  proof (intro allI impI)
    fix k assume k: "k < n"
    show "idxend (d ((base_pc + 4 * k) div DIVISOR False)) =
            (if terminator_at last_pc seg dec (base_pc + 4 * k) \<or> Suc k = n then 0
             else idxend (d ((base_pc + 4 * Suc k) div DIVISOR False)) + 1)"
    proof (cases "Suc k = n")
      case True
      then have "k = n - 1" "0 < n" by simp_all
      then show ?thesis using top True by (simp add: pos_div)
    next
      case False
      then have "Suc k < n" using k by simp
      then show ?thesis using rec False by (simp only: pos_div) simp
    qed
  qed
  ultimately show ?thesis using frame shape by blast
qed

text \<open>
  Claim C1, amended. After the realizer has run without the C extension on a segment of
  whole 4-byte words that starts at or above address 4 and ends inside the address space,
  every entry \<open>p\<close> of the segment has \<open>idxend[p] = 0\<close> when the instruction at \<open>p\<close> ends a
  block (opcode BRANCH, JAL, JALR, AUIPC, SYSTEM, or the sentinel in \<open>instr\<close>) or when \<open>p\<close>
  is the last entry of the segment, and \<open>idxend[p] = idxend[p + 4] + 1\<close> otherwise, the sum
  taken in the 16 bits of the field.
\<close>

theorem realize_fastsim_nc_idxend:
  assumes "4 \<le> base_pc" "last_pc = base_pc + 4 * n" "last_pc \<le> 2 ^ (8 * W)"
  shows "\<exists>d. realize_fastsim_nc W base_pc last_pc seg dec = Some d
      \<and> (\<forall>k<n. idxend (d ((base_pc + 4 * k) div DIVISOR False)) =
            (if terminator_at last_pc seg dec (base_pc + 4 * k) \<or> Suc k = n then 0
             else idxend (d ((base_pc + 4 * Suc k) div DIVISOR False)) + 1))"
  using realize_fastsim_nc_run [OF assms] by blast

theorem realize_fastsim_nc_idxend_witness:
  "(4::nat) \<le> 4096 \<and> (4108::nat) = 4096 + 4 * 3 \<and> (4108::nat) \<le> 2 ^ (8 * 4)
   \<and> idxend_after_nc 4 4096 4108 (segment_of_words 4096 [0x13, 0x13, 0x8067]) zero_decoder 4096
       = Some 2"
proof -
  let ?seg = "segment_of_words 4096 [0x13, 0x13, 0x8067]"
  have h: "(4::nat) \<le> 4096" "(4108::nat) = 4096 + 4 * 3" "(4108::nat) \<le> 2 ^ (8 * 4)"
    by simp_all
  from realize_fastsim_nc_idxend [OF h, of ?seg zero_decoder]
  obtain d where d: "realize_fastsim_nc 4 4096 4108 ?seg zero_decoder = Some d"
    and r: "\<And>k. k < 3 \<Longrightarrow> idxend (d ((4096 + 4 * k) div DIVISOR False)) =
            (if terminator_at 4108 ?seg zero_decoder (4096 + 4 * k) \<or> Suc k = 3 then 0
             else idxend (d ((4096 + 4 * Suc k) div DIVISOR False)) + 1)"
    by blast
  have t0: "\<not> terminator_at 4108 ?seg zero_decoder 4096" by code_simp
  have t1: "\<not> terminator_at 4108 ?seg zero_decoder 4100" by code_simp
  have i2: "idxend (d 1026) = 0" using r [of 2] by (simp add: DIVISOR_def)
  have i1: "idxend (d 1025) = 1" using r [of 1] t1 i2 by (simp add: DIVISOR_def)
  have i0: "idxend (d 1024) = 2" using r [of 0] t0 i1 by (simp add: DIVISOR_def)
  have v: "idxend_after_nc 4 4096 4108 ?seg zero_decoder 4096 = Some 2"
    by (simp add: idxend_after_nc_def d i0 DIVISOR_def)
  show ?thesis by (intro conjI h v)
qed

text \<open>
  Claim C1 as stated fails at the last entry of a segment: a segment of the single instruction
  \<open>addi x0, x0, 0\<close> at \<open>0x1000\<close>. The entry is in the segment and its instruction does not
  end a block, yet it gets \<open>idxend = 0\<close>, which is not the \<open>idxend\<close> of the entry at
  \<open>0x1004\<close> (also 0) plus one.
\<close>

theorem fastsim_last_entry_counterexample:
  "\<not> terminator_at 4100 (segment_of_words 4096 [0x13]) zero_decoder 4096
   \<and> idxend_after_nc 4 4096 4100 (segment_of_words 4096 [0x13]) zero_decoder 4096 = Some 0
   \<and> idxend_after_nc 4 4096 4100 (segment_of_words 4096 [0x13]) zero_decoder 4100 = Some 0"
proof -
  let ?seg = "segment_of_words 4096 [0x13]"
  have h: "(4::nat) \<le> 4096" "(4100::nat) = 4096 + 4 * 1" "(4100::nat) \<le> 2 ^ (8 * 4)"
    by simp_all
  from realize_fastsim_nc_run [OF h, of ?seg zero_decoder]
  obtain d where d: "realize_fastsim_nc 4 4096 4100 ?seg zero_decoder = Some d"
    and frame: "\<And>i. i < 4096 div 4 \<or> 4096 div 4 + 1 \<le> i \<Longrightarrow> d i = zero_decoder i"
    and r: "\<And>k. k < 1 \<Longrightarrow> idxend (d ((4096 + 4 * k) div DIVISOR False)) =
            (if terminator_at 4100 ?seg zero_decoder (4096 + 4 * k) \<or> Suc k = 1 then 0
             else idxend (d ((4096 + 4 * Suc k) div DIVISOR False)) + 1)"
    by blast
  have t0: "\<not> terminator_at 4100 ?seg zero_decoder 4096" by code_simp
  have i0: "idxend (d 1024) = 0" using r [of 0] by (simp add: DIVISOR_def)
  have i1: "idxend (d 1025) = 0"
    using frame [of 1025] by (simp add: zero_decoder_def zero_entry_def)
  show ?thesis
    using t0 by (simp add: idxend_after_nc_def d i0 i1 DIVISOR_def)
qed

text \<open>
  Claim C10. Without the C extension every entry has \<open>instruction_count() = idxend + 1\<close> and
  \<open>block_bytes() = 4 * idxend\<close>; with it, \<open>block_bytes() = 2 * idxend\<close> and
  \<open>instruction_count() = idxend + 1 - icount\<close>. Hence after the realizer has run without the
  C extension, an entry whose instruction ends a block reports \<open>instruction_count() = 1\<close> and
  \<open>block_bytes() = 0\<close>.
\<close>

theorem decoder_accessors:
  assumes "4 \<le> base_pc" "last_pc = base_pc + 4 * n" "last_pc \<le> 2 ^ (8 * W)"
    and "k < n" "terminator_at last_pc seg dec (base_pc + 4 * k)"
  shows "instruction_count False e = uint (idxend e) + 1
     \<and> block_bytes False e = 4 * uint (idxend e)
     \<and> block_bytes True e = 2 * uint (idxend e)
     \<and> instruction_count True e = uint (idxend e) + 1 - uint (icount e)
     \<and> map_option (instruction_count False)
           (entry_after_nc W base_pc last_pc seg dec (base_pc + 4 * k)) = Some 1
     \<and> map_option (block_bytes False)
           (entry_after_nc W base_pc last_pc seg dec (base_pc + 4 * k)) = Some 0"
proof -
  from realize_fastsim_nc_run [OF assms(1-3), of seg dec]
  obtain d where d: "realize_fastsim_nc W base_pc last_pc seg dec = Some d"
    and r: "\<forall>k<n. idxend (d ((base_pc + 4 * k) div DIVISOR False)) =
            (if terminator_at last_pc seg dec (base_pc + 4 * k) \<or> Suc k = n then 0
             else idxend (d ((base_pc + 4 * Suc k) div DIVISOR False)) + 1)"
    by blast
  have z: "idxend (d ((base_pc + 4 * k) div DIVISOR False)) = 0"
    using r assms(4,5) by simp
  show ?thesis
    by (simp add: instruction_count_def block_bytes_def entry_after_nc_def d z)
qed

theorem decoder_accessors_witness:
  "(4::nat) \<le> 4096 \<and> (4100::nat) = 4096 + 4 * 1 \<and> (4100::nat) \<le> 2 ^ (8 * 4) \<and> (0::nat) < 1
   \<and> terminator_at 4100 (segment_of_words 4096 [0x8067]) zero_decoder (4096 + 4 * 0)
   \<and> map_option (instruction_count False)
         (entry_after_nc 4 4096 4100 (segment_of_words 4096 [0x8067]) zero_decoder (4096 + 4 * 0))
       = Some 1
   \<and> map_option (block_bytes False)
         (entry_after_nc 4 4096 4100 (segment_of_words 4096 [0x8067]) zero_decoder (4096 + 4 * 0))
       = Some 0"
proof -
  have h: "(4::nat) \<le> 4096" "(4100::nat) = 4096 + 4 * 1" "(4100::nat) \<le> 2 ^ (8 * 4)"
    "(0::nat) < 1"
    by simp_all
  have t: "terminator_at 4100 (segment_of_words 4096 [0x8067]) zero_decoder (4096 + 4 * 0)"
    by code_simp
  note w = decoder_accessors [OF h t]
  show ?thesis by (intro conjI h t w [THEN conjunct2, THEN conjunct2, THEN conjunct2, THEN conjunct2, THEN conjunct1]
     w [THEN conjunct2, THEN conjunct2, THEN conjunct2, THEN conjunct2, THEN conjunct2])
qed

section \<open>The fastsim realizer with the C extension: what it stores\<close>

lemma hw_at_cases: "hw_at seg last_pc q = 1 \<or> hw_at seg last_pc q = 2"
  by (simp add: hw_at_def length_instr_def)

lemma hw_at_pos: "0 < hw_at seg last_pc q"
  using hw_at_cases [of seg last_pc q] by auto

lemma hw_at_le: "hw_at seg last_pc q \<le> 2"
  using hw_at_cases [of seg last_pc q] by auto

lemma length_instr_hw:
  "length_instr (read_instruction seg (of_nat q) (of_nat last_pc)) = 2 * hw_at seg last_pc q"
  by (simp add: hw_at_def length_instr_def)

lemma halfwords_Nil [simp]: "halfwords seg last_pc [] = 0"
  by (simp add: halfwords_def)

lemma halfwords_Cons [simp]:
  "halfwords seg last_pc (q # qs) = hw_at seg last_pc q + halfwords seg last_pc qs"
  by (simp add: halfwords_def)

lemma halfwords_ge_length: "length qs \<le> halfwords seg last_pc qs"
proof (induction qs)
  case Nil
  show ?case by simp
next
  case (Cons q qs)
  then show ?case using hw_at_pos [of seg last_pc q] by simp
qed

lemma addr_wrap_small: "x < 2 ^ (8 * W) \<Longrightarrow> addr_wrap W x = x"
  by (simp add: addr_wrap_def)

lemma advance_no_wrap:
  assumes "last_pc + 4 \<le> 2 ^ (8 * W)" and "q < last_pc"
  shows "addr_wrap W (q + 2 * hw_at seg last_pc q) = q + 2 * hw_at seg last_pc q"
proof -
  have "q + 2 * hw_at seg last_pc q < 2 ^ (8 * W)"
    using assms hw_at_le [of seg last_pc q] by linarith
  then show ?thesis by (rule addr_wrap_small)
qed

lemma block_walk_props:
  assumes "block_walk W seg dec last_pc q qs e"
  shows "qs \<noteq> [] \<and> hd qs = q \<and> q < e \<and> (\<forall>x\<in>set qs. q \<le> x \<and> x + 2 \<le> e \<and> x < last_pc)
     \<and> e = last qs + 2 * hw_at seg last_pc (last qs)"
  using assms
proof (induction rule: block_walk.induct)
  case (walk_stop q)
  then show ?case using hw_at_pos [of seg last_pc q] by auto
next
  case (walk_end q)
  then show ?case using hw_at_pos [of seg last_pc q] by auto
next
  case (walk_step q qs e)
  then show ?case using hw_at_pos [of seg last_pc q] by auto
qed

lemma block_walk_det:
  assumes "block_walk W seg dec last_pc q qs e" and "block_walk W seg dec last_pc q qs' e'"
  shows "qs' = qs \<and> e' = e"
  using assms
proof (induction arbitrary: qs' e' rule: block_walk.induct)
  case (walk_stop q)
  from walk_stop(3) walk_stop(1,2) show ?case by (cases rule: block_walk.cases) auto
next
  case (walk_end q)
  from walk_end(4) walk_end(1,2,3) show ?case by (cases rule: block_walk.cases) auto
next
  case (walk_step q qs e)
  from walk_step(6) walk_step(1,2,3) walk_step(5) show ?case
    by (cases rule: block_walk.cases) auto
qed

lemma block_walk_total:
  assumes "q < last_pc"
  shows "\<exists>qs e. block_walk W seg dec last_pc q qs e"
  using assms
proof (induction "last_pc - q" arbitrary: q rule: less_induct)
  case less
  show ?case
  proof (cases "stops_block W seg dec last_pc q")
    case True
    with less.prems show ?thesis by (blast intro: walk_stop)
  next
    case False
    show ?thesis
    proof (cases "q + 2 * hw_at seg last_pc q < last_pc")
      case n: False
      with False less.prems show ?thesis by (blast intro: walk_end)
    next
      case y: True
      have "last_pc - (q + 2 * hw_at seg last_pc q) < last_pc - q"
        using y hw_at_pos [of seg last_pc q] by linarith
      from less.hyps [OF this y] obtain qs e
        where "block_walk W seg dec last_pc (q + 2 * hw_at seg last_pc q) qs e" by blast
      with False y less.prems show ?thesis by (blast intro: walk_step)
    qed
  qed
qed

lemma stops_block_cong:
  assumes "\<And>k. instr (d1 k) = instr (d2 k)"
  shows "stops_block W seg d1 last_pc q = stops_block W seg d2 last_pc q"
  by (simp add: stops_block_def ends_block_def assms Let_def)

lemma block_walk_cong_imp:
  assumes "block_walk W seg d1 last_pc q qs e" and "\<And>k. instr (d1 k) = instr (d2 k)"
  shows "block_walk W seg d2 last_pc q qs e"
  using assms(1)
proof (induction rule: block_walk.induct)
  case (walk_stop q)
  then show ?case using stops_block_cong [of d1 d2 W seg last_pc q, OF assms(2)]
    by (simp add: block_walk.walk_stop)
next
  case (walk_end q)
  then show ?case using stops_block_cong [of d1 d2 W seg last_pc q, OF assms(2)]
    by (simp add: block_walk.walk_end)
next
  case (walk_step q qs e)
  then show ?case using stops_block_cong [of d1 d2 W seg last_pc q, OF assms(2)]
    by (simp add: block_walk.walk_step)
qed


lemma fastsim_collect_unfold:
  assumes nw: "last_pc + 4 \<le> 2 ^ (8 * W)" and q: "q < last_pc"
  shows "fastsim_collect W seg dec last_pc q dl data =
           (if stops_block W seg dec last_pc q
            then Some (q + 2 * hw_at seg last_pc q, dl + hw_at seg last_pc q, data @ [q div 2])
            else fastsim_collect W seg dec last_pc (q + 2 * hw_at seg last_pc q)
                   (dl + hw_at seg last_pc q) (data @ [q div 2]))"
proof -
  let ?i = "read_instruction seg (of_nat q) (of_nat last_pc)"
  have a: "addr_wrap W (q + length_instr ?i) = q + 2 * hw_at seg last_pc q"
    by (simp only: length_instr_hw advance_no_wrap [OF nw q])
  have d: "length_instr ?i div 2 = hw_at seg last_pc q"
    by (simp only: hw_at_def)
  have s: "stops_block W seg dec last_pc q =
             (if length_instr ?i = 2 then \<not> is_regular_compressed W (ucast ?i)
              else ends_block (opcode ?i) (dec (q div DIVISOR True)))"
    by (simp only: stops_block_def Let_def)
  show ?thesis
    apply (subst fastsim_collect.simps)
    apply (simp only: q if_True Let_def a d flip: s)
    apply (simp only: DIVISOR_def if_True)
    done
qed

lemma fastsim_collect_exit:
  "\<not> q < last_pc \<Longrightarrow> fastsim_collect W seg dec last_pc q dl data = Some (q, dl, data)"
  by (subst fastsim_collect.simps) simp

lemma fastsim_collect_walk:
  assumes nw: "last_pc + 4 \<le> 2 ^ (8 * W)" and w: "block_walk W seg dec last_pc q qs e"
  shows "fastsim_collect W seg dec last_pc q dl data =
           Some (e, dl + halfwords seg last_pc qs, data @ map (\<lambda>x. x div 2) qs)"
  using w
proof (induction arbitrary: dl data rule: block_walk.induct)
  case (walk_stop q)
  then show ?case by (simp add: fastsim_collect_unfold [OF nw])
next
  case (walk_end q)
  then show ?case by (simp add: fastsim_collect_unfold [OF nw] fastsim_collect_exit)
next
  case (walk_step q qs e)
  then show ?case by (simp add: fastsim_collect_unfold [OF nw])
qed

lemma fastsim_fill_walk:
  assumes nw: "last_pc + 4 \<le> 2 ^ (8 * W)" and w: "block_walk W seg dec0 last_pc q qs e"
  shows "(\<forall>i<length qs. fastsim_fill W seg last_pc (map (\<lambda>x. x div 2) qs) q dl dec (qs ! i div 2) =
            filled seg last_pc (dl - halfwords seg last_pc (take i qs)) (length qs - i) (qs ! i)
              (dec (qs ! i div 2)))
       \<and> (\<forall>k. k < q div 2 \<or> e div 2 \<le> k \<longrightarrow>
            fastsim_fill W seg last_pc (map (\<lambda>x. x div 2) qs) q dl dec k = dec k)
       \<and> (\<forall>k. instr (fastsim_fill W seg last_pc (map (\<lambda>x. x div 2) qs) q dl dec k) = instr (dec k))"
  using w
proof (induction arbitrary: dl dec rule: block_walk.induct)
  case (walk_stop q)
  have "q div 2 < (q + 2 * hw_at seg last_pc q) div 2"
    using hw_at_pos [of seg last_pc q] by simp
  then show ?case
    by (auto simp add: Let_def length_instr_hw filled_def)
next
  case (walk_end q)
  have "q div 2 < (q + 2 * hw_at seg last_pc q) div 2"
    using hw_at_pos [of seg last_pc q] by simp
  then show ?case
    by (auto simp add: Let_def length_instr_hw filled_def)
next
  case (walk_step q qs e)
  let ?q' = "q + 2 * hw_at seg last_pc q"
  let ?dec1 = "dec (q div 2 := filled seg last_pc dl (Suc (length qs)) q (dec (q div 2)))"
  let ?F = "fastsim_fill W seg last_pc (map (\<lambda>x. x div 2) (q # qs)) q dl dec"
  have lt: "q div 2 < ?q' div 2"
    using hw_at_pos [of seg last_pc q] by simp
  have unf: "?F = fastsim_fill W seg last_pc (map (\<lambda>x. x div 2) qs) ?q'
                   (dl - hw_at seg last_pc q) ?dec1"
    using walk_step(1)
    by (simp add: Let_def length_instr_hw advance_no_wrap [OF nw] filled_def)
  note IH = walk_step.IH [of "dl - hw_at seg last_pc q" ?dec1]
  from walk_step(4) have props: "\<forall>x\<in>set qs. ?q' \<le> x" "?q' < e"
    using block_walk_props by blast+
  have a: "?F (((q # qs) ! i) div 2) =
            filled seg last_pc (dl - halfwords seg last_pc (take i (q # qs)))
              (length (q # qs) - i) ((q # qs) ! i) (dec (((q # qs) ! i) div 2))"
    if i: "i < length (q # qs)" for i
  proof (cases i)
    case 0
    have "?F (q div 2) = ?dec1 (q div 2)"
      unfolding unf using IH lt by blast
    then show ?thesis using 0 by simp
  next
    case (Suc j)
    with i have j: "j < length qs" by simp
    then have "?q' \<le> qs ! j" using props(1) by simp
    then have "?q' div 2 \<le> qs ! j div 2" by (rule div_le_mono)
    with lt have ne: "qs ! j div 2 \<noteq> q div 2" by linarith
    have "?F (qs ! j div 2) =
            filled seg last_pc (dl - hw_at seg last_pc q - halfwords seg last_pc (take j qs))
              (length qs - j) (qs ! j) (?dec1 (qs ! j div 2))"
      unfolding unf using IH j by blast
    then show ?thesis using Suc ne by (simp add: diff_diff_left)
  qed
  have b: "?F k = dec k" if k: "k < q div 2 \<or> e div 2 \<le> k" for k
  proof -
    have "?q' div 2 \<le> e div 2" using props(2) by (intro div_le_mono) simp
    with k lt have k': "k < ?q' div 2 \<or> e div 2 \<le> k" and ne: "k \<noteq> q div 2" by linarith+
    have "?F k = ?dec1 k" unfolding unf using IH k' by blast
    then show ?thesis using ne by simp
  qed
  have c: "instr (?F k) = instr (dec k)" for k
  proof -
    have "instr (?F k) = instr (?dec1 k)" unfolding unf using IH by blast
    then show ?thesis by (simp add: filled_def)
  qed
  from a b c show ?case by blast
qed


lemma halfwords_take_drop:
  "halfwords seg last_pc qs - halfwords seg last_pc (take i qs) = halfwords seg last_pc (drop i qs)"
proof -
  have "halfwords seg last_pc (take i qs @ drop i qs) =
          halfwords seg last_pc (take i qs) + halfwords seg last_pc (drop i qs)"
    unfolding halfwords_def by (simp only: map_append sum_list_append)
  then show ?thesis by simp
qed

lemma fastsim_forward_exit:
  "\<not> pc < last_pc \<Longrightarrow> fastsim_forward W seg last_pc pc dec = Some dec"
  by (subst fastsim_forward.simps) simp

lemma fastsim_forward_step:
  assumes nw: "last_pc + 4 \<le> 2 ^ (8 * W)" and q: "q < last_pc"
    and w: "block_walk W seg dec last_pc q qs e"
  shows "fastsim_forward W seg last_pc q dec =
           fastsim_forward W seg last_pc e
             (fastsim_fill W seg last_pc (map (\<lambda>x. x div 2) qs) q (halfwords seg last_pc qs) dec)"
  by (subst fastsim_forward.simps) (simp add: q fastsim_collect_walk [OF nw w])

lemma fastsim_block_start_ge:
  assumes "fastsim_block_start W seg dec last_pc pc q"
  shows "pc \<le> q"
  using assms
proof (induction rule: fastsim_block_start.induct)
  case (start_here q)
  show ?case by simp
next
  case (start_later pc qs e q)
  from block_walk_props [OF start_later(2)] have "pc < e" by blast
  with start_later.IH show ?case by simp
qed

lemma fastsim_forward_blocks:
  assumes nw: "last_pc + 4 \<le> 2 ^ (8 * W)"
    and same: "\<And>k. instr (dec k) = instr (dec0 k)"
  shows "\<exists>d. fastsim_forward W seg last_pc pc dec = Some d
           \<and> (\<forall>k. instr (d k) = instr (dec0 k))
           \<and> (\<forall>k<pc div 2. d k = dec k)
           \<and> (\<forall>q qs e i. fastsim_block_start W seg dec0 last_pc pc q \<and> q < last_pc
                 \<and> block_walk W seg dec0 last_pc q qs e \<and> i < length qs
               \<longrightarrow> d (qs ! i div 2) =
                     filled seg last_pc (halfwords seg last_pc (drop i qs)) (length qs - i) (qs ! i)
                       (dec (qs ! i div 2)))"
  using same
proof (induction "last_pc - pc" arbitrary: pc dec rule: less_induct)
  case less
  note same = less.prems
  show ?case
  proof (cases "pc < last_pc")
    case False
    have none: "\<not> (fastsim_block_start W seg dec0 last_pc pc q \<and> q < last_pc)" for q
      using fastsim_block_start_ge [of W seg dec0 last_pc pc q] False by auto
    have "fastsim_forward W seg last_pc pc dec = Some dec"
      using False by (rule fastsim_forward_exit)
    with none same show ?thesis by blast
  next
    case True
    from block_walk_total [OF True] obtain qs0 e0
      where w0: "block_walk W seg dec0 last_pc pc qs0 e0" by blast
    have w: "block_walk W seg dec last_pc pc qs0 e0"
      by (rule block_walk_cong_imp [OF w0]) (simp add: same)
    let ?dec1 = "fastsim_fill W seg last_pc (map (\<lambda>x. x div 2) qs0) pc
                   (halfwords seg last_pc qs0) dec"
    note fill = fastsim_fill_walk [OF nw w0, of "halfwords seg last_pc qs0" dec]
    from fill have f1: "\<And>i. i < length qs0 \<Longrightarrow> ?dec1 (qs0 ! i div 2) =
        filled seg last_pc (halfwords seg last_pc qs0 - halfwords seg last_pc (take i qs0))
          (length qs0 - i) (qs0 ! i) (dec (qs0 ! i div 2))"
      and f2: "\<And>k. k < pc div 2 \<or> e0 div 2 \<le> k \<Longrightarrow> ?dec1 k = dec k"
      and f3: "\<And>k. instr (?dec1 k) = instr (dec k)"
      by blast+
    from block_walk_props [OF w0]
    have lt: "pc < e0" and mem: "\<And>x. x \<in> set qs0 \<Longrightarrow> x + 2 \<le> e0" by blast+
    have same1: "instr (?dec1 k) = instr (dec0 k)" for k
      using f3 [of k] same [of k] by simp
    have m: "last_pc - e0 < last_pc - pc" using lt True by linarith
    from less.hyps [OF m same1] obtain d
      where r: "fastsim_forward W seg last_pc e0 ?dec1 = Some d"
        and si: "\<forall>k. instr (d k) = instr (dec0 k)"
        and fr: "\<forall>k<e0 div 2. d k = ?dec1 k"
        and bl: "\<And>q qs e i. fastsim_block_start W seg dec0 last_pc e0 q \<Longrightarrow> q < last_pc
                 \<Longrightarrow> block_walk W seg dec0 last_pc q qs e \<Longrightarrow> i < length qs
               \<Longrightarrow> d (qs ! i div 2) =
                     filled seg last_pc (halfwords seg last_pc (drop i qs)) (length qs - i) (qs ! i)
                       (?dec1 (qs ! i div 2))"
      by blast
    have run: "fastsim_forward W seg last_pc pc dec = Some d"
      using fastsim_forward_step [OF nw True w] r by simp
    have frame: "d k = dec k" if "k < pc div 2" for k
    proof -
      have "pc div 2 \<le> e0 div 2" using lt by (intro div_le_mono) simp
      with that have "k < e0 div 2" by linarith
      with fr have "d k = ?dec1 k" by blast
      with f2 [of k] that show ?thesis by simp
    qed
    have blocks: "d (qs ! i div 2) =
                    filled seg last_pc (halfwords seg last_pc (drop i qs)) (length qs - i) (qs ! i)
                       (dec (qs ! i div 2))"
      if st: "fastsim_block_start W seg dec0 last_pc pc q" and q: "q < last_pc"
        and bw: "block_walk W seg dec0 last_pc q qs e" and i: "i < length qs" for q qs e i
      using st
    proof (cases rule: fastsim_block_start.cases)
      case start_here
      with bw w0 block_walk_det have eq: "qs = qs0" "e = e0" by blast+
      from i eq have "qs0 ! i \<in> set qs0" by simp
      from mem [OF this] have "qs0 ! i div 2 < e0 div 2"
        by (metis add_2_eq_Suc' div_le_mono div2_Suc_Suc less_eq_Suc_le)
      with fr have "d (qs0 ! i div 2) = ?dec1 (qs0 ! i div 2)" by blast
      with f1 [of i] i eq show ?thesis by (simp add: halfwords_take_drop)
    next
      case (start_later qs' e')
      with w0 block_walk_det have e': "e' = e0" by blast
      with start_later have st': "fastsim_block_start W seg dec0 last_pc e0 q" by simp
      from fastsim_block_start_ge [OF st'] have "e0 \<le> q" .
      moreover from block_walk_props [OF bw] i have "q \<le> qs ! i" by simp
      ultimately have "e0 div 2 \<le> qs ! i div 2" by (intro div_le_mono) simp
      with f2 have "?dec1 (qs ! i div 2) = dec (qs ! i div 2)" by blast
      with bl [OF st' q bw i] show ?thesis by simp
    qed
    from run si frame blocks show ?thesis by blast
  qed
qed


lemma overflow_checked_instr_count_min:
  "overflow_checked_instr_count n = of_nat (min 255 n)"
  by (simp add: overflow_checked_instr_count_def min_def)

lemma halfwords_drop_le: "halfwords seg last_pc (drop i qs) \<le> halfwords seg last_pc qs"
  using halfwords_take_drop [of seg last_pc qs i] by linarith

lemma halfwords_drop_Suc_le:
  "halfwords seg last_pc (drop (Suc i) qs) \<le> halfwords seg last_pc (drop i qs)"
  using halfwords_drop_le [of seg last_pc 1 "drop i qs"] by simp

lemma idxend_word_mono:
  assumes "a \<le> b" and "b \<le> 255"
  shows "(of_nat (a mod 256) :: 16 word) \<le> of_nat (b mod 256)"
proof -
  from assms have "a mod 256 = a" "b mod 256 = b" by simp_all
  moreover have "(of_nat a :: 16 word) \<le> of_nat b"
    using assms by (simp add: word_le_nat_alt unat_of_nat take_bit_nat_eq_self)
  ultimately show ?thesis by simp
qed

lemma sample_c_reads:
  "hw_at (segment_of_words 4096 [0x00130001, 0x80820000]) 4104 4096 = 1"
  "hw_at (segment_of_words 4096 [0x00130001, 0x80820000]) 4104 4098 = 2"
  "hw_at (segment_of_words 4096 [0x00130001, 0x80820000]) 4104 4102 = 1"
  "\<not> stops_block 4 (segment_of_words 4096 [0x00130001, 0x80820000]) zero_decoder 4104 4096"
  "\<not> stops_block 4 (segment_of_words 4096 [0x00130001, 0x80820000]) zero_decoder 4104 4098"
  "stops_block 4 (segment_of_words 4096 [0x00130001, 0x80820000]) zero_decoder 4104 4102"
  by code_simp+

lemma sample_c_walk:
  "block_walk 4 (segment_of_words 4096 [0x00130001, 0x80820000]) zero_decoder 4104
     4096 [4096, 4098, 4102] 4104"
proof -
  let ?S = "segment_of_words 4096 [0x00130001, 0x80820000]"
  have "block_walk 4 ?S zero_decoder 4104 4102 [4102] (4102 + 2 * hw_at ?S 4104 4102)"
    by (rule walk_stop) (simp_all add: sample_c_reads)
  then have w3: "block_walk 4 ?S zero_decoder 4104 4102 [4102] 4104"
    by (simp add: sample_c_reads)
  have "block_walk 4 ?S zero_decoder 4104 4098 [4098, 4102] 4104"
    by (rule walk_step) (simp_all add: sample_c_reads w3)
  then show ?thesis
    by (intro walk_step) (simp_all add: sample_c_reads)
qed


lemma single_c_reads:
  "hw_at (segment_of_words 4096 [0x8082]) 4098 4096 = 1"
  "stops_block 4 (segment_of_words 4096 [0x8082]) zero_decoder 4098 4096"
  by code_simp+

text \<open>
  Claim C2, as the code has it. With the C extension, for a segment that ends at least 4 bytes
  below the top of the address space, the realizer returns, and in every block it begins
  (instruction starts \<open>qs\<close>), for the entry of the \<open>i\<close>-th instruction start: \<open>idxend\<close> is the
  number of half-words from that instruction to the end of the block, inclusive, kept in 8
  bits; \<open>opcode_length\<close> is the length of the instruction; and \<open>instr_count\<close> is
  \<open>min(255, remaining half-words - remaining instructions)\<close>, which is the number of 4-byte
  instructions left in the block, not the number of instructions. Hence, in a block of at
  most 255 half-words, \<open>idxend\<close> does not increase from an instruction start to the next, and
  the entry of the last instruction of the block has \<open>idxend\<close> equal to its own length in
  half-words.
\<close>

theorem realize_fastsim_c_fields:
  assumes nw: "last_pc + 4 \<le> 2 ^ (8 * W)"
    and st: "fastsim_block_start W seg dec last_pc base_pc q"
    and q: "q < last_pc"
    and bw: "block_walk W seg dec last_pc q qs e"
  shows "\<exists>d. realize_fastsim_c W base_pc last_pc seg dec = Some d
     \<and> (\<forall>i<length qs.
           idxend (d (qs ! i div DIVISOR True))
             = of_nat (halfwords seg last_pc (drop i qs) mod 256)
         \<and> opcode_length (d (qs ! i div DIVISOR True)) = of_nat (2 * hw_at seg last_pc (qs ! i))
         \<and> instr_count (d (qs ! i div DIVISOR True))
             = of_nat (min 255 (halfwords seg last_pc (drop i qs) - (length qs - i))))
     \<and> (halfwords seg last_pc qs \<le> 255 \<longrightarrow>
          (\<forall>i. Suc i < length qs \<longrightarrow>
             idxend (d (qs ! Suc i div DIVISOR True)) \<le> idxend (d (qs ! i div DIVISOR True))))
     \<and> idxend (d (last qs div DIVISOR True)) = of_nat (hw_at seg last_pc (last qs))"
proof -
  from fastsim_forward_blocks [OF nw, of dec dec seg base_pc] obtain d
    where r: "fastsim_forward W seg last_pc base_pc dec = Some d"
      and bl: "\<And>q qs e i. fastsim_block_start W seg dec last_pc base_pc q \<Longrightarrow> q < last_pc
                 \<Longrightarrow> block_walk W seg dec last_pc q qs e \<Longrightarrow> i < length qs
               \<Longrightarrow> d (qs ! i div 2) =
                     filled seg last_pc (halfwords seg last_pc (drop i qs)) (length qs - i) (qs ! i)
                       (dec (qs ! i div 2))"
    by blast
  note f = bl [OF st q bw]
  have D: "DIVISOR True = 2" by (simp add: DIVISOR_def)
  have a: "idxend (d (qs ! i div 2)) = of_nat (halfwords seg last_pc (drop i qs) mod 256)"
    if "i < length qs" for i
    using f [OF that] by (simp add: filled_def)
  have b: "opcode_length (d (qs ! i div 2)) = of_nat (2 * hw_at seg last_pc (qs ! i))"
    if "i < length qs" for i
    using f [OF that] by (simp add: filled_def)
  have c: "instr_count (d (qs ! i div 2))
             = of_nat (min 255 (halfwords seg last_pc (drop i qs) - (length qs - i)))"
    if "i < length qs" for i
    using f [OF that] by (simp add: filled_def overflow_checked_instr_count_min)
  have m: "idxend (d (qs ! Suc i div 2)) \<le> idxend (d (qs ! i div 2))"
    if h: "halfwords seg last_pc qs \<le> 255" and i: "Suc i < length qs" for i
  proof -
    from i have i': "i < length qs" by simp
    have "halfwords seg last_pc (drop i qs) \<le> 255"
      using halfwords_drop_le [of seg last_pc i qs] h by linarith
    from idxend_word_mono [OF halfwords_drop_Suc_le this]
    show ?thesis unfolding a [OF i] a [OF i'] .
  qed
  from block_walk_props [OF bw] have ne: "qs \<noteq> []" by blast
  then have li: "length qs - 1 < length qs" by simp
  have dl: "drop (length qs - 1) qs = [last qs]"
    using ne by (metis append_butlast_last_id append_eq_conv_conj length_butlast)
  have ll: "qs ! (length qs - 1) = last qs" using ne by (simp add: last_conv_nth)
  have "hw_at seg last_pc (last qs) mod 256 = hw_at seg last_pc (last qs)"
    using hw_at_le [of seg last_pc "last qs"] by simp
  then have t: "idxend (d (last qs div 2)) = of_nat (hw_at seg last_pc (last qs))"
    using a [OF li] unfolding dl ll by simp
  have r': "realize_fastsim_c W base_pc last_pc seg dec = Some d"
    using r by (simp add: realize_fastsim_c_def)
  show ?thesis unfolding D using r' a b c m t by blast
qed


text \<open>
  On \<open>c.nop; addi x0, x0, 0; c.jr ra\<close> at \<open>0x1000\<close>: one block of 4 half-words, with
  \<open>idxend\<close> 4, 3, 1 and \<open>instr_count\<close> 1, 1, 0.
\<close>

theorem realize_fastsim_c_fields_witness:
  "(4104 :: nat) + 4 \<le> 2 ^ (8 * 4)
   \<and> fastsim_block_start 4 (segment_of_words 4096 [0x00130001, 0x80820000]) zero_decoder 4104
        4096 4096
   \<and> (4096 :: nat) < 4104
   \<and> block_walk 4 (segment_of_words 4096 [0x00130001, 0x80820000]) zero_decoder 4104
        4096 [4096, 4098, 4102] 4104
   \<and> (\<exists>d. realize_fastsim_c 4 4096 4104 (segment_of_words 4096 [0x00130001, 0x80820000])
             zero_decoder = Some d
        \<and> idxend (d 2048) = 4 \<and> idxend (d 2049) = 3 \<and> idxend (d 2051) = 1
        \<and> opcode_length (d 2048) = 2 \<and> opcode_length (d 2049) = 4
        \<and> opcode_length (d 2051) = 2
        \<and> instr_count (d 2048) = 1 \<and> instr_count (d 2049) = 1 \<and> instr_count (d 2051) = 0)"
proof -
  let ?S = "segment_of_words 4096 [0x00130001, 0x80820000]"
  let ?qs = "[4096, 4098, 4102 :: nat]"
  have h: "(4104 :: nat) + 4 \<le> 2 ^ (8 * 4)" by simp
  have st: "fastsim_block_start 4 ?S zero_decoder 4104 4096 4096" by (rule start_here)
  have q: "(4096 :: nat) < 4104" by simp
  note bw = sample_c_walk
  from realize_fastsim_c_fields [OF h st q bw] obtain d
    where r: "realize_fastsim_c 4 4096 4104 ?S zero_decoder = Some d"
      and f: "\<And>i. i < length ?qs \<Longrightarrow>
           idxend (d (?qs ! i div DIVISOR True))
             = of_nat (halfwords ?S 4104 (drop i ?qs) mod 256)
         \<and> opcode_length (d (?qs ! i div DIVISOR True)) = of_nat (2 * hw_at ?S 4104 (?qs ! i))
         \<and> instr_count (d (?qs ! i div DIVISOR True))
             = of_nat (min 255 (halfwords ?S 4104 (drop i ?qs) - (length ?qs - i)))"
    by blast
  have f0: "idxend (d 2048) = 4 \<and> opcode_length (d 2048) = 2 \<and> instr_count (d 2048) = 1"
    using f [of 0] by (simp add: DIVISOR_def sample_c_reads)
  have f1: "idxend (d 2049) = 3 \<and> opcode_length (d 2049) = 4 \<and> instr_count (d 2049) = 1"
    using f [of 1] by (simp add: DIVISOR_def sample_c_reads)
  have f2: "idxend (d 2051) = 1 \<and> opcode_length (d 2051) = 2 \<and> instr_count (d 2051) = 0"
    using f [of 2] by (simp add: DIVISOR_def sample_c_reads)
  from r f0 f1 f2
  have "\<exists>d. realize_fastsim_c 4 4096 4104 ?S zero_decoder = Some d
        \<and> idxend (d 2048) = 4 \<and> idxend (d 2049) = 3 \<and> idxend (d 2051) = 1
        \<and> opcode_length (d 2048) = 2 \<and> opcode_length (d 2049) = 4
        \<and> opcode_length (d 2051) = 2
        \<and> instr_count (d 2048) = 1 \<and> instr_count (d 2049) = 1 \<and> instr_count (d 2051) = 0"
    by blast
  then show ?thesis by (intro conjI h st q bw)
qed

text \<open>
  Claim C2 as stated fails for \<open>instr_count\<close>: on the single compressed instruction
  \<open>c.jr ra\<close> (\<open>0x8082\<close>) at \<open>0x1000\<close>, the block has one instruction, and the realizer
  stores \<open>instr_count = min(255, 1 - 1) = 0\<close> in its entry, not 1.
\<close>

theorem fastsim_instr_count_counterexample:
  "block_walk 4 (segment_of_words 4096 [0x8082]) zero_decoder 4098 4096 [4096] 4098
   \<and> (\<exists>d. realize_fastsim_c 4 4096 4098 (segment_of_words 4096 [0x8082]) zero_decoder = Some d
        \<and> instr_count (d (4096 div DIVISOR True)) = 0
        \<and> instr_count (d (4096 div DIVISOR True)) \<noteq> of_nat (min 255 (length [4096 :: nat])))"
proof -
  let ?S = "segment_of_words 4096 [0x8082]"
  have h: "(4098 :: nat) + 4 \<le> 2 ^ (8 * 4)" by simp
  have "block_walk 4 ?S zero_decoder 4098 4096 [4096] (4096 + 2 * hw_at ?S 4098 4096)"
    by (rule walk_stop) (simp_all add: single_c_reads)
  then have bw: "block_walk 4 ?S zero_decoder 4098 4096 [4096] 4098"
    by (simp add: single_c_reads)
  have c: "fastsim_collect 4 ?S zero_decoder 4098 4096 0 [] = Some (4098, 1, [2048])"
    using fastsim_collect_walk [OF h bw, of 0 "[]"] by (simp add: single_c_reads)
  have "fastsim_forward 4 ?S 4098 4096 zero_decoder
          = fastsim_forward 4 ?S 4098 4098 (fastsim_fill 4 ?S 4098 [2048] 4096 1 zero_decoder)"
    by (subst fastsim_forward.simps) (simp add: c)
  also have "\<dots> = Some (fastsim_fill 4 ?S 4098 [2048] 4096 1 zero_decoder)"
    by (rule fastsim_forward_exit) simp
  finally have r: "realize_fastsim_c 4 4096 4098 ?S zero_decoder
                     = Some (fastsim_fill 4 ?S 4098 [2048] 4096 1 zero_decoder)"
    by (simp add: realize_fastsim_c_def)
  have v: "instr_count (fastsim_fill 4 ?S 4098 [2048] 4096 1 zero_decoder 2048) = 0"
    by (simp add: Let_def overflow_checked_instr_count_def)
  have D: "4096 div DIVISOR True = 2048" by (simp add: DIVISOR_def)
  have "\<exists>d. realize_fastsim_c 4 4096 4098 ?S zero_decoder = Some d
        \<and> instr_count (d (4096 div DIVISOR True)) = 0
        \<and> instr_count (d (4096 div DIVISOR True)) \<noteq> of_nat (min 255 (length [4096 :: nat]))"
    unfolding D using r v by simp
  then show ?thesis by (intro conjI bw)
qed
section \<open>The registry of embedded translations: results\<close>

lemma register_translation_ok:
  assumes "count reg < MAX_EMBEDDED"
  shows "register_call reg r =
     (Inr (), reg\<lparr>translation_array := (translation_array reg)[count reg := stored_translation r],
                   count := count reg + 1\<rparr>)"
proof -
  obtain a b c d e f where r: "r = (a, b, c, d, e, f)" by (cases r)
  have upd: "x\<lparr>hash := a, nmappings := c, mappings := b, nhandlers := e, handlers := d,
           api_table := f\<rparr> =
         \<lparr>hash = a, nmappings = c, nhandlers = e, mappings = b, handlers = d, api_table = f\<rparr>"
    for x :: EmbeddedTranslation
    by (cases x) simp
  show ?thesis using assms
    by (simp add: r register_translation_def Let_def upd)
qed

lemma register_translation_full:
  assumes "MAX_EMBEDDED \<le> count reg"
  shows "register_call reg r =
     (Inl (MachineException INVALID_PROGRAM ''Too many embedded translations'' 0), reg)"
  using assms by (cases r) (simp add: register_translation_def)

lemma register_calls_ok:
  assumes "count reg + length rs \<le> MAX_EMBEDDED" "length (translation_array reg) = MAX_EMBEDDED"
  shows "register_calls reg rs =
     (Inr (), \<lparr>translation_array = take (count reg) (translation_array reg) @ map stored_translation rs
                   @ drop (count reg + length rs) (translation_array reg),
               count = count reg + length rs\<rparr>)"
  using assms
proof (induction rs arbitrary: reg)
  case Nil
  then show ?case by simp
next
  case (Cons r rs)
  let ?reg1 = "reg\<lparr>translation_array := (translation_array reg)[count reg := stored_translation r],
                   count := count reg + 1\<rparr>"
  have c: "count reg < MAX_EMBEDDED" using Cons.prems by simp
  have c': "count reg < length (translation_array reg)" using Cons.prems by simp
  have step: "register_calls reg (r # rs) = register_calls ?reg1 rs"
    by (simp add: register_translation_ok [OF c] del: register_call.simps)
  have ih: "register_calls ?reg1 rs =
     (Inr (), \<lparr>translation_array = take (count ?reg1) (translation_array ?reg1) @ map stored_translation rs
                   @ drop (count ?reg1 + length rs) (translation_array ?reg1),
               count = count ?reg1 + length rs\<rparr>)"
    using Cons.prems by (intro Cons.IH) simp_all
  have t: "take (count ?reg1) (translation_array ?reg1)
         = take (count reg) (translation_array reg) @ [stored_translation r]"
    using c' by (simp add: take_Suc_conv_app_nth)
  have d: "drop (count ?reg1 + length rs) (translation_array ?reg1)
         = drop (count reg + length (r # rs)) (translation_array reg)"
    by simp
  show ?case unfolding step ih t d by simp
qed

lemma register_calls_from_zero:
  assumes "length rs \<le> MAX_EMBEDDED"
  shows "register_calls registered_embedded_translations rs = (Inr (), registry_after rs)"
proof -
  have "register_calls registered_embedded_translations rs =
     (Inr (), \<lparr>translation_array =
                 take (count registered_embedded_translations)
                   (translation_array registered_embedded_translations)
                 @ map stored_translation rs
                 @ drop (count registered_embedded_translations + length rs)
                     (translation_array registered_embedded_translations),
               count = count registered_embedded_translations + length rs\<rparr>)"
    using assms by (intro register_calls_ok) (simp_all add: registered_embedded_translations_def)
  then show ?thesis
    by (simp add: registered_embedded_translations_def registry_after_def)
qed

lemma register_calls_append:
  "register_calls reg (rs @ [r]) =
     (case register_calls reg rs of
        (Inl e, reg') \<Rightarrow> (Inl e, reg')
      | (Inr _, reg') \<Rightarrow> register_call reg' r)"
proof (induction rs arbitrary: reg)
  case Nil
  show ?case by (auto split: prod.splits sum.splits simp del: register_call.simps)
next
  case (Cons a rs)
  show ?case
    by (auto split: prod.splits sum.splits simp: Cons.IH simp del: register_call.simps)
qed

text \<open>
  Claim C9. Starting from the zeroed registry, each of the first 12 calls to
  \<open>register_translation\<close> succeeds, stores its arguments in the next free slot and increments
  the count by one; a 13th call throws \<open>INVALID_PROGRAM\<close> with the message "Too many embedded
  translations" and leaves the registry as it was.
\<close>

theorem register_translation_bound:
  assumes "length rs = MAX_EMBEDDED"
  shows "(\<forall>k<MAX_EMBEDDED.
            register_calls registered_embedded_translations (take k rs)
              = (Inr (), registry_after (take k rs))
          \<and> count (registry_after (take k rs)) = k
          \<and> register_call (registry_after (take k rs)) (rs ! k)
              = (Inr (), (registry_after (take k rs))
                   \<lparr>translation_array :=
                      (translation_array (registry_after (take k rs)))
                        [k := stored_translation (rs ! k)],
                    count := k + 1\<rparr>))
       \<and> register_calls registered_embedded_translations rs = (Inr (), registry_after rs)
       \<and> count (registry_after rs) = MAX_EMBEDDED
       \<and> register_call (registry_after rs) r
            = (Inl (MachineException INVALID_PROGRAM ''Too many embedded translations'' 0),
               registry_after rs)
       \<and> register_calls registered_embedded_translations (rs @ [r])
            = (Inl (MachineException INVALID_PROGRAM ''Too many embedded translations'' 0),
               registry_after rs)"
proof (intro conjI allI impI)
  fix k assume k: "k < MAX_EMBEDDED"
  show "register_calls registered_embedded_translations (take k rs)
          = (Inr (), registry_after (take k rs))"
    using assms k by (intro register_calls_from_zero) simp
  show c: "count (registry_after (take k rs)) = k"
    using assms k by (simp add: registry_after_def)
  have "count (registry_after (take k rs)) < MAX_EMBEDDED" using c k by simp
  from register_translation_ok [OF this, of "rs ! k"] c
  show "register_call (registry_after (take k rs)) (rs ! k)
              = (Inr (), (registry_after (take k rs))
                   \<lparr>translation_array :=
                      (translation_array (registry_after (take k rs)))
                        [k := stored_translation (rs ! k)],
                    count := k + 1\<rparr>)"
    by simp
next
  show all: "register_calls registered_embedded_translations rs = (Inr (), registry_after rs)"
    using assms by (intro register_calls_from_zero) simp
  show c: "count (registry_after rs) = MAX_EMBEDDED"
    using assms by (simp add: registry_after_def)
  show full: "register_call (registry_after rs) r
            = (Inl (MachineException INVALID_PROGRAM ''Too many embedded translations'' 0),
               registry_after rs)"
    using c by (intro register_translation_full) simp
  show "register_calls registered_embedded_translations (rs @ [r])
            = (Inl (MachineException INVALID_PROGRAM ''Too many embedded translations'' 0),
               registry_after rs)"
    by (simp add: register_calls_append all full del: register_call.simps)
qed

theorem register_translation_bound_witness:
  "length (replicate 12 (7, 256, 1, 512, 1, 768 :: nat) :: registration list) = MAX_EMBEDDED
   \<and> register_calls registered_embedded_translations
        (replicate 12 (7, 256, 1, 512, 1, 768) @ [(8, 0, 0, 0, 0, 0)])
       = (Inl (MachineException INVALID_PROGRAM ''Too many embedded translations'' 0),
          \<lparr>translation_array = replicate 12
              \<lparr>hash = 7, nmappings = 1, nhandlers = 1, mappings = 256, handlers = 512,
               api_table = 768\<rparr>,
           count = 12\<rparr>)"
proof -
  have h: "length (replicate 12 (7, 256, 1, 512, 1, 768 :: nat) :: registration list) = MAX_EMBEDDED"
    by (simp add: MAX_EMBEDDED_def)
  have a: "registry_after (replicate 12 (7, 256, 1, 512, 1, 768)) =
          \<lparr>translation_array = replicate 12
              \<lparr>hash = 7, nmappings = 1, nhandlers = 1, mappings = 256, handlers = 512,
               api_table = 768\<rparr>,
           count = 12\<rparr>"
    by (simp add: registry_after_def MAX_EMBEDDED_def)
  show ?thesis
    using register_translation_bound [OF h, of "(8, 0, 0, 0, 0, 0)"] h
    unfolding a by blast
qed

section \<open>The handler table: results\<close>













section \<open>The pre-scan for GP: results\<close>

lemma length_instr_bounds: "length_instr w = 2 \<or> length_instr w = 4"
  by (simp add: length_instr_def)

lemma next_pc_no_wrap:
  assumes "pc < endbasepc" "endbasepc + 4 \<le> 2 ^ (8 * W)"
  shows "next_pc C W pc w = pc + (if C then length_instr w else 4)"
proof -
  have "pc + (if C then length_instr w else 4) < 2 ^ (8 * W)"
    using assms length_instr_bounds [of w] by auto
  then show ?thesis by (simp add: next_pc_def addr_wrap_def)
qed

lemma next_pc_greater:
  assumes "pc < endbasepc" "endbasepc + 4 \<le> 2 ^ (8 * W)"
  shows "pc < next_pc C W pc w" "next_pc C W pc w < endbasepc + 4"
  using assms length_instr_bounds [of w] by (auto simp: next_pc_no_wrap)

lemma scan_for_gp_exit:
  "\<not> pc < endbasepc \<Longrightarrow> scan_for_gp C W exec_data endbasepc pc = Some 0"
  by (subst scan_for_gp.simps) simp

lemma scan_for_gp_match:
  "pc < endbasepc \<Longrightarrow> gp_match W exec_data endbasepc pc = Some gp
     \<Longrightarrow> scan_for_gp C W exec_data endbasepc pc = Some gp"
  by (subst scan_for_gp.simps) simp

lemma scan_for_gp_step:
  "pc < endbasepc \<Longrightarrow> gp_match W exec_data endbasepc pc = None
     \<Longrightarrow> scan_for_gp C W exec_data endbasepc pc
       = scan_for_gp C W exec_data endbasepc (next_pc C W pc (read_at exec_data pc endbasepc))"
  by (subst scan_for_gp.simps) simp

lemma scan_for_gp_skip:
  assumes "scan_position C W exec_data endbasepc basepc pc"
    and "\<And>q. scan_position C W exec_data endbasepc basepc q \<Longrightarrow> q < pc
           \<Longrightarrow> gp_match W exec_data endbasepc q = None"
    and "endbasepc + 4 \<le> 2 ^ (8 * W)"
  shows "scan_for_gp C W exec_data endbasepc basepc = scan_for_gp C W exec_data endbasepc pc"
  using assms
proof (induction rule: scan_position.induct)
  case scan_start
  show ?case by simp
next
  case (scan_next pc)
  let ?n = "next_pc C W pc (read_at exec_data pc endbasepc)"
  have lt: "pc < ?n" using next_pc_greater(1) [OF scan_next.hyps(2) scan_next.prems(2)] .
  have "scan_for_gp C W exec_data endbasepc basepc = scan_for_gp C W exec_data endbasepc pc"
  proof (rule scan_next.IH)
    fix q assume "scan_position C W exec_data endbasepc basepc q" "q < pc"
    then show "gp_match W exec_data endbasepc q = None"
      using scan_next.prems(1) lt by simp
  qed (rule scan_next.prems(2))
  moreover have "gp_match W exec_data endbasepc pc = None"
    using scan_next.prems(1) [OF scan_next.hyps(1) lt] .
  ultimately show ?case
    using scan_for_gp_step [OF scan_next.hyps(2)] by simp
qed

lemma scan_for_gp_none:
  assumes "scan_position C W exec_data endbasepc basepc pc"
    and "\<And>q. scan_position C W exec_data endbasepc basepc q \<Longrightarrow> q < endbasepc
           \<Longrightarrow> gp_match W exec_data endbasepc q = None"
    and "endbasepc + 4 \<le> 2 ^ (8 * W)"
  shows "scan_for_gp C W exec_data endbasepc pc = Some 0"
  using assms(1)
proof (induction "endbasepc - pc" arbitrary: pc rule: less_induct)
  case less
  show ?case
  proof (cases "pc < endbasepc")
    case False
    then show ?thesis by (rule scan_for_gp_exit)
  next
    case True
    let ?n = "next_pc C W pc (read_at exec_data pc endbasepc)"
    have lt: "pc < ?n" using next_pc_greater(1) [OF True assms(3)] .
    have "scan_for_gp C W exec_data endbasepc ?n = Some 0"
    proof (rule less.hyps)
      show "endbasepc - ?n < endbasepc - pc" using lt True by simp
      show "scan_position C W exec_data endbasepc basepc ?n"
        using less.prems True by (rule scan_next)
    qed
    moreover have "gp_match W exec_data endbasepc pc = None"
      using assms(2) [OF less.prems True] .
    ultimately show ?thesis using scan_for_gp_step [OF True] by simp
  qed
qed

lemma gp_match_None_iff:
  "gp_match W exec_data endbasepc pc = None \<longleftrightarrow> \<not> gp_found W exec_data endbasepc pc"
  by (auto simp: gp_match_def gp_found_def is_auipc_gp_def is_addi_def is_addi_gp_def Let_def)

lemma gp_match_found:
  assumes "gp_found W exec_data endbasepc pc"
  shows "gp_match W exec_data endbasepc pc =
     Some (if is_addi_gp (read_at exec_data (addr_wrap W (pc + 4)) endbasepc)
           then addr_add_signed W
                  (addr_add_signed W pc (Utype_upper_imm (read_at exec_data pc endbasepc)))
                  (Itype_signed_imm (read_at exec_data (addr_wrap W (pc + 4)) endbasepc))
           else addr_add_signed W pc (Utype_upper_imm (read_at exec_data pc endbasepc)))"
  using assms
  by (auto simp: gp_match_def gp_found_def is_auipc_gp_def is_addi_def is_addi_gp_def Let_def)

text \<open>
  Claim C7, amended. The pre-scan stops at the first scanned instruction that is an AUIPC
  with \<open>rd = 3\<close> and is followed either by an ADDI with \<open>rd = 3\<close> and \<open>rs1 = 3\<close>, giving
  \<open>gp = pc + auipc.imm + addi.imm\<close>, or by an instruction that is no ADDI, giving
  \<open>gp = pc + auipc.imm\<close>; the sums are taken in the address type. (The segment ends at least
  4 bytes below the top of the address space.)
\<close>

theorem gp_scan_first_match:
  assumes "endbasepc + 4 \<le> 2 ^ (8 * W)"
    and "scan_position C W exec_data endbasepc basepc pc" "pc < endbasepc"
    and "gp_found W exec_data endbasepc pc"
    and "\<forall>q. scan_position C W exec_data endbasepc basepc q \<and> q < pc
           \<longrightarrow> \<not> gp_found W exec_data endbasepc q"
  shows "scan_for_gp C W exec_data endbasepc basepc =
     Some (if is_addi_gp (read_at exec_data (addr_wrap W (pc + 4)) endbasepc)
           then addr_add_signed W
                  (addr_add_signed W pc (Utype_upper_imm (read_at exec_data pc endbasepc)))
                  (Itype_signed_imm (read_at exec_data (addr_wrap W (pc + 4)) endbasepc))
           else addr_add_signed W pc (Utype_upper_imm (read_at exec_data pc endbasepc)))"
proof -
  have "scan_for_gp C W exec_data endbasepc basepc = scan_for_gp C W exec_data endbasepc pc"
    using assms(2) _ assms(1)
  proof (rule scan_for_gp_skip)
    fix q assume "scan_position C W exec_data endbasepc basepc q" "q < pc"
    then show "gp_match W exec_data endbasepc q = None"
      using assms(5) by (simp add: gp_match_None_iff)
  qed
  then show ?thesis
    using scan_for_gp_match [OF assms(3) gp_match_found [OF assms(4)]] by simp
qed

lemma s1_reads:
  "read_at (segment_of_words 4096 [0x197, 0x818193, 0x8067]) 4096 4108 = 0x197"
  "read_at (segment_of_words 4096 [0x197, 0x818193, 0x8067]) 4100 4108 = 0x818193"
  by code_simp+

theorem gp_scan_first_match_witness:
  "(4108::nat) + 4 \<le> 2 ^ (8 * 4)
   \<and> scan_position False 4 (segment_of_words 4096 [0x197, 0x818193, 0x8067]) 4108 4096 4096
   \<and> (4096::nat) < 4108
   \<and> gp_found 4 (segment_of_words 4096 [0x197, 0x818193, 0x8067]) 4108 4096
   \<and> \<not> (\<exists>q. scan_position False 4 (segment_of_words 4096 [0x197, 0x818193, 0x8067]) 4108 4096 q
            \<and> q < 4096
            \<and> gp_found 4 (segment_of_words 4096 [0x197, 0x818193, 0x8067]) 4108 q)
   \<and> scan_for_gp False 4 (segment_of_words 4096 [0x197, 0x818193, 0x8067]) 4108 4096
       = Some 4104"
proof -
  let ?seg = "segment_of_words 4096 [0x197, 0x818193, 0x8067]"
  have h1: "(4108::nat) + 4 \<le> 2 ^ (8 * 4)" by simp
  have h2: "scan_position False 4 ?seg 4108 4096 4096" by (rule scan_start)
  have h3: "(4096::nat) < 4108" by simp
  have w4: "addr_wrap 4 (4096 + 4) = 4100" by (simp add: addr_wrap_def)
  have h4: "gp_found 4 ?seg 4108 4096"
    unfolding gp_found_def w4 s1_reads by code_simp
  have h5: "\<forall>q. scan_position False 4 ?seg 4108 4096 q \<and> q < 4096 \<longrightarrow> \<not> gp_found 4 ?seg 4108 q"
  proof (intro allI impI)
    fix q assume a: "scan_position False 4 ?seg 4108 4096 q \<and> q < 4096"
    then have "4096 \<le> q"
      by (induction rule: scan_position.induct [OF conjunct1 [OF a]])
         (simp_all add: next_pc_no_wrap)
    then show "\<not> gp_found 4 ?seg 4108 q" using a by simp
  qed
  have v: "(if is_addi_gp (0x818193 :: 32 word)
           then addr_add_signed 4 (addr_add_signed 4 4096 (Utype_upper_imm 0x197))
                  (Itype_signed_imm 0x818193)
           else addr_add_signed 4 4096 (Utype_upper_imm 0x197)) = 4104"
    by code_simp
  have "scan_for_gp False 4 ?seg 4108 4096 = Some 4104"
    using gp_scan_first_match [OF h1 h2 h3 h4 h5] unfolding w4 s1_reads v .
  moreover have "\<not> (\<exists>q. scan_position False 4 ?seg 4108 4096 q \<and> q < 4096
            \<and> gp_found 4 ?seg 4108 q)"
    using h5 by blast
  ultimately show ?thesis by (intro conjI h1 h2 h3 h4)
qed

text \<open>
  Claim C7 as stated fails on its scenario S1: the first word of S1's segment, \<open>0x00000097\<close>,
  is an AUIPC into \<open>x1\<close>, not into \<open>x3\<close>, so the scan finds nothing and leaves \<open>gp = 0\<close>,
  not \<open>0x1008\<close>.
\<close>

theorem gp_scan_S1_counterexample:
  "field_rd 0x00000097 = 1
   \<and> scan_for_gp False 4 (segment_of_words 4096 [0x00000097, 0x00818193, 0x00008067]) 4108 4096
       = Some 0"
proof -
  let ?seg = "segment_of_words 4096 [0x00000097, 0x00818193, 0x00008067]"
  have m: "gp_match 4 ?seg 4108 4096 = None" "gp_match 4 ?seg 4108 4100 = None"
    "gp_match 4 ?seg 4108 4104 = None"
    by code_simp+
  have n: "next_pc False 4 4096 w = 4100" "next_pc False 4 4100 w = 4104"
    "next_pc False 4 4104 w = 4108" for w
    by (simp_all add: next_pc_def addr_wrap_def)
  have "scan_for_gp False 4 ?seg 4108 4096 = scan_for_gp False 4 ?seg 4108 4100"
    using scan_for_gp_step [of 4096 4108 4 ?seg False] m(1) n(1) by simp
  also have "\<dots> = scan_for_gp False 4 ?seg 4108 4104"
    using scan_for_gp_step [of 4100 4108 4 ?seg False] m(2) n(2) by simp
  also have "\<dots> = scan_for_gp False 4 ?seg 4108 4108"
    using scan_for_gp_step [of 4104 4108 4 ?seg False] m(3) n(3) by simp
  also have "\<dots> = Some 0"
    by (rule scan_for_gp_exit) simp
  finally have r: "scan_for_gp False 4 ?seg 4108 4096 = Some 0" .
  have f: "field_rd 0x00000097 = 1" by code_simp
  show ?thesis by (intro conjI f r)
qed

section \<open>The block scanner: results\<close>
















section \<open>The translation hash: results\<close>



section \<open>The code emitter: results\<close>

lemma increment_counter_fields [simp]:
  "e_instr (increment_counter_so_far tinfo em) = e_instr em"
  "e_pc (increment_counter_so_far tinfo em) = e_pc em"
  "e_func (increment_counter_so_far tinfo em) = e_func em"
  "e_instr_length (increment_counter_so_far tinfo em) = e_instr_length em"
  "e_idx (increment_counter_so_far tinfo em) = e_idx em"
  by (simp_all add: increment_counter_so_far_def Let_def append_code_def)

lemma add_code_fields [simp]:
  "e_instr (add_code as em) = e_instr em"
  "e_pc (add_code as em) = e_pc em"
  "e_func (add_code as em) = e_func em"
  "e_instr_length (add_code as em) = e_instr_length em"
  "e_idx (add_code as em) = e_idx em"
  "e_code (add_code as em) = e_code em @ concat (map (\<lambda>a. a @ ''\<newline>'') as)"
  by (simp_all add: add_code_def)

lemma append_code_fields [simp]:
  "e_instr (append_code s em) = e_instr em"
  "e_pc (append_code s em) = e_pc em"
  "e_func (append_code s em) = e_func em"
  "e_instr_length (append_code s em) = e_instr_length em"
  "e_idx (append_code s em) = e_idx em"
  "e_code (append_code s em) = e_code em @ s"
  by (simp_all add: append_code_def)

lemma exit_function_code:
  "e_code (exit_function tinfo new_pc add_bracket em) =
     e_code em
     @ (if new_pc \<noteq> ''cpu->pc'' then ''cpu->pc = '' @ new_pc @ '';'' else '''') @ ''\<newline>''
     @ (if ti_ignore_instruction_limit tinfo
        then ''return (ReturnValues){0, max_counter};''
        else ''return (ReturnValues){counter, max_counter};'') @ ''\<newline>''
     @ (if add_bracket then '' }'' else '''') @ ''\<newline>''"
  by (simp add: exit_function_def Let_def)

lemma JAL_dest_pc_fields [simp]:
  "JAL_dest_pc C W (increment_counter_so_far tinfo em) = JAL_dest_pc C W em"
  "JAL_dest_pc C W (add_code as em) = JAL_dest_pc C W em"
  by (simp_all add: JAL_dest_pc_def)

lemma emit_JAL_local_forward:
  assumes rd: "field_rd (e_instr em) = 0"
    and dest: "dest = JAL_dest_pc C W em"
    and inside: "ti_basepc tinfo \<le> dest" "dest < ti_endpc tinfo" and fwd: "e_pc em < dest"
  shows "e_code (emit_JAL C W tinfo blocks gl nextpc em) =
     e_code (increment_counter_so_far tinfo em)
     @ ''goto '' @ funclabel (e_func em) dest @ '';'' @ ''\<newline>''
     @ (if STRADDR dest \<noteq> ''cpu->pc'' then ''cpu->pc = '' @ STRADDR dest @ '';'' else '''')
     @ ''\<newline>''
     @ (if ti_ignore_instruction_limit tinfo
        then ''return (ReturnValues){0, max_counter};''
        else ''return (ReturnValues){counter, max_counter};'') @ ''\<newline>''
     @ ''\<newline>''"
  using inside fwd
  unfolding emit_JAL_def dest
  by (simp add: Let_def rd exit_function_code FUNCLABEL_def)

lemma PCRELA_fields [simp]:
  "PCRELA W (append_code s em) x = PCRELA W em x"
  "PCRELA W (increment_counter_so_far tinfo em) x = PCRELA W em x"
  by (simp_all add: PCRELA_def)

lemma PCRELS_fields [simp]:
  "PCRELS W (append_code s em) x = PCRELS W em x"
  by (simp add: PCRELS_def)

text \<open>The branch path: a misaligned destination makes \<open>add_branch\<close> emit the test, the call
  of the exception callback with \<open>MISALIGNED_INSTRUCTION\<close>, and nothing else.\<close>

lemma add_branch_misaligned:
  assumes "PCRELA W em (Btype_signed_imm (e_instr em)) AND ALIGN_MASK C \<noteq> 0"
  shows "e_code (add_branch C W tinfo binfo op em) =
     e_code em
     @ (if \<not> sign binfo
        then ''if ('' @ from_reg tinfo (unat (field_rs1 (e_instr em))) @ op
               @ from_reg tinfo (unat (field_rs2 (e_instr em))) @ '') {\<newline>''
        else ''if ((saddr_t)'' @ from_reg tinfo (unat (field_rs1 (e_instr em))) @ op
               @ '' (saddr_t)'' @ from_reg tinfo (unat (field_rs2 (e_instr em))) @ '') {\<newline>'')
     @ ''api.exception(cpu, '' @ PCRELS W em 0
     @ '', MISALIGNED_INSTRUCTION); return (ReturnValues){0, 0};\<newline>}\<newline>''"
  using assms by (simp add: add_branch_def Let_def)

lemma emit_BRANCH_misaligned:
  assumes "PCRELA W em (Btype_signed_imm (e_instr em)) AND ALIGN_MASK C \<noteq> 0"
    and "field_funct3 (e_instr em) \<noteq> 2" "field_funct3 (e_instr em) \<noteq> 3"
  shows "\<exists>test. e_code (emit_BRANCH C W tinfo em) =
     e_code (increment_counter_so_far tinfo em) @ test
     @ ''api.exception(cpu, '' @ PCRELS W em 0
     @ '', MISALIGNED_INSTRUCTION); return (ReturnValues){0, 0};\<newline>}\<newline>''"
proof -
  have m: "PCRELA W em' (Btype_signed_imm (e_instr em')) AND ALIGN_MASK C \<noteq> 0"
    if "e_pc em' = e_pc em" "e_instr em' = e_instr em" for em'
    using assms(1) that by (simp add: PCRELA_def)
  have p: "PCRELS W em' 0 = PCRELS W em 0" if "e_pc em' = e_pc em" for em'
    using that by (simp add: PCRELS_def PCRELA_def)
  have "\<exists>test. e_code (add_branch C W tinfo binfo op em') =
       e_code (increment_counter_so_far tinfo em) @ test
       @ ''api.exception(cpu, '' @ PCRELS W em 0
       @ '', MISALIGNED_INSTRUCTION); return (ReturnValues){0, 0};\<newline>}\<newline>''"
    if "e_pc em' = e_pc em" "e_instr em' = e_instr em"
      "e_code em' = e_code (increment_counter_so_far tinfo em)" for em' binfo op
    unfolding add_branch_misaligned [OF m [OF that(1,2)]] p [OF that(1)] that(3)
    by (rule exI, rule refl)
  note ab = this
  let ?em1 = "increment_counter_so_far tinfo em"
  let ?em2 = "fst (branch_jump_pc W tinfo ?em1)"
  have f: "e_pc ?em2 = e_pc em" "e_instr ?em2 = e_instr em" "e_code ?em2 = e_code ?em1"
    by (simp_all add: branch_jump_pc_def Let_def)
  note ab2 = ab [OF f]
  show ?thesis
    unfolding emit_BRANCH_def Let_def case_prod_beta f(2)
    using assms(2,3) ab2 by simp
qed

lemma sample_strings:
  "to_string 1 = ''1''" "to_string 4096 = ''4096''" "to_string 4100 = ''4100''"
  "to_hex 4096 = ''1000''" "to_hex 4100 = ''1004''"
  by (simp_all add: to_string.simps to_hex.simps)

lemma sample_increment:
  "e_code (increment_counter_so_far (sample_tinfo is) (sample_emitter i)) = ''counter += 1;\<newline>''"
  by (simp add: increment_counter_so_far_def Let_def sample_tinfo_def sample_emitter_def
      sample_strings)

text \<open>
  Claim C6 on the branch path, at a concrete input: \<open>beq x0, x0, +6\<close> at \<open>0x1000\<close> in a
  build without the C extension has the destination \<open>0x1006\<close>, which violates the mask 3,
  and the emitted code raises \<open>MISALIGNED_INSTRUCTION\<close> when the branch is taken.
\<close>

lemma branch_misaligned_target_raises:
  "e_code (emit_BRANCH False 4 (sample_tinfo [0x00000363, 0x13, 0x13, 0x13])
            (sample_emitter 0x00000363))
   = ''counter += 1;\<newline>''
     @ ''if ((addr_t)0 == (addr_t)0) {\<newline>''
     @ ''api.exception(cpu, 4096UL, MISALIGNED_INSTRUCTION); return (ReturnValues){0, 0};\<newline>''
     @ ''}\<newline>''"
proof -
  let ?t = "sample_tinfo [0x00000363, 0x13, 0x13, 0x13]"
  let ?e = "sample_emitter 0x00000363"
  have i: "e_instr ?e = 0x00000363" "e_pc ?e = 4096" by (simp_all add: sample_emitter_def)
  have imm: "Btype_signed_imm 0x00000363 = 6" by (simp add: Btype_signed_imm_def)
  have f: "field_funct3 0x00000363 = 0" "field_rs1 0x00000363 = 0" "field_rs2 0x00000363 = 0"
    by (simp_all add: field_funct3_def field_rs1_def field_rs2_def)
  have a: "addr_add_signed 4 4096 6 = 4102" "addr_add_signed 4 4096 0 = 4096"
    by (simp_all add: addr_add_signed_def)
  let ?e1 = "increment_counter_so_far ?t ?e"
  have j: "branch_jump_pc 4 ?t ?e1
      = (?e1\<lparr>e_labels := insert 4102 (e_labels ?e1)\<rparr>, 4102)"
    by (simp add: branch_jump_pc_def Let_def i imm a sample_tinfo_def)
  let ?e2 = "?e1\<lparr>e_labels := insert 4102 (e_labels ?e1)\<rparr>"
  have e2: "e_instr ?e2 = 0x00000363" "e_pc ?e2 = 4096" "e_code ?e2 = ''counter += 1;\<newline>''"
    by (simp_all add: i sample_increment)
  have mis: "PCRELA 4 ?e2 (Btype_signed_imm (e_instr ?e2)) AND ALIGN_MASK False \<noteq> 0"
    by (simp add: PCRELA_def e2 imm a ALIGN_MASK_def)
  have "emit_BRANCH False 4 ?t ?e =
      add_branch False 4 ?t
        \<lparr>sign = False, ignore_instruction_limit = ti_ignore_instruction_limit ?t,
         jump_pc = 4102, call_pc = 0\<rparr> '' == '' ?e2"
    unfolding emit_BRANCH_def Let_def j by (simp add: i f)
  then show ?thesis
    unfolding add_branch_misaligned [OF mis]
    by (simp add: add_branch_misaligned [OF mis] e2 f from_reg_def PCRELS_def PCRELA_def a
        sample_strings)
qed

text \<open>
  Claim C6 fails on the jump path: \<open>jal x0, +6\<close> at \<open>0x1000\<close>, in the same build, has the
  destination \<open>0x1006\<close>, which violates the mask 3, and the emitted code masks the
  destination to \<open>0x1004\<close> and goes there; it raises nothing.
\<close>

theorem jal_misaligned_target_masked:
  "addr_add_signed 4 4096 (Jtype_jump_offset 0x0060006F) = 4102
   \<and> (4102 :: nat) AND ALIGN_MASK False = 2
   \<and> e_code (emit_JAL False 4 (sample_tinfo [0x0060006F, 0x13, 0x13, 0x13]) [] {} 4100
              (sample_emitter 0x0060006F))
     = ''counter += 1;\<newline>''
       @ ''goto f_1000_1004;\<newline>''
       @ ''cpu->pc = 4100UL;\<newline>''
       @ ''return (ReturnValues){counter, max_counter};\<newline>''
       @ ''\<newline>''"
proof -
  let ?t = "sample_tinfo [0x0060006F, 0x13, 0x13, 0x13]"
  let ?e = "sample_emitter 0x0060006F"
  have jo: "Jtype_jump_offset 0x0060006F = 6" by (simp add: Jtype_jump_offset_def)
  have a: "addr_add_signed 4 4096 6 = 4102" by (simp add: addr_add_signed_def)
  have m: "(4102 :: nat) AND ALIGN_MASK False = 2" by (simp add: ALIGN_MASK_def)
  have rd: "field_rd (e_instr ?e) = 0" by (simp add: sample_emitter_def field_rd_def)
  have d: "4100 = JAL_dest_pc False 4 ?e"
    by (simp add: JAL_dest_pc_def sample_emitter_def jo a ALIGN_MASK_def)
  have b: "ti_basepc ?t \<le> 4100" "4100 < ti_endpc ?t" "e_pc ?e < 4100"
    by (simp_all add: sample_tinfo_def sample_emitter_def)
  have lbl: "funclabel (e_func ?e) 4100 = ''f_1000_1004''"
    by (simp add: sample_emitter_def funclabel_def sample_strings)
  have sa: "STRADDR 4100 = ''4100UL''" by (simp add: STRADDR_def sample_strings)
  have il: "\<not> ti_ignore_instruction_limit ?t" by (simp add: sample_tinfo_def)
  have c: "e_code (emit_JAL False 4 ?t [] {} 4100 ?e)
     = ''counter += 1;\<newline>''
       @ ''goto f_1000_1004;\<newline>''
       @ ''cpu->pc = 4100UL;\<newline>''
       @ ''return (ReturnValues){counter, max_counter};\<newline>''
       @ ''\<newline>''"
    unfolding emit_JAL_local_forward [OF rd d b] sample_increment lbl sa
    using il by simp
  show ?thesis
    unfolding jo by (intro conjI a m c)
qed

end
